theory Spec2Isabelle
  imports Main
begin

section \<open>JavaScript values\<close>

text \<open>
  Strings are sequences of UTF-16 code units, as the regular expressions of
  \<^verbatim>\<open>src/core/util/lang.js\<close> see them. Numbers are integers plus the one
  non-reflexive value NaN; objects, arrays and functions are references into a heap.
  \<open>VTypeError\<close> is the TypeError the engine raises for a property access on
  \<^verbatim>\<open>undefined\<close> or \<^verbatim>\<open>null\<close>.
\<close>

type_synonym jsstring = "nat list"

datatype jsval =
    VUndefined
  | VNull
  | VBool bool
  | VNum int
  | VNaN
  | VStr jsstring
  | VRef nat
  | VTypeError

text \<open>\<^verbatim>\<open>a === b\<close>: NaN is not equal to itself, references compare by identity.\<close>

definition strict_eq :: "jsval \<Rightarrow> jsval \<Rightarrow> bool" where
  "strict_eq a b = (a \<noteq> VNaN \<and> a = b)"

text \<open>\<^verbatim>\<open>!v\<close> is true exactly on the falsy values.\<close>

fun falsy :: "jsval \<Rightarrow> bool" where
  "falsy VUndefined = True"
| "falsy VNull = True"
| "falsy (VBool b) = (\<not> b)"
| "falsy (VNum n) = (n = 0)"
| "falsy VNaN = True"
| "falsy (VStr s) = (s = [])"
| "falsy (VRef r) = False"
| "falsy VTypeError = False"

section \<open>Build and run-time configuration\<close>

text \<open>
  \<open>production\<close> is \<^verbatim>\<open>process.env.NODE_ENV === 'production'\<close>, \<open>async\<close> is
  \<^verbatim>\<open>config.async\<close>. The remaining fields are what \<^verbatim>\<open>src/core/util/error.js\<close>
  consults: whether an \<^verbatim>\<open>errorCaptured\<close> hook of an ancestor returns
  \<^verbatim>\<open>false\<close>, what \<^verbatim>\<open>config.errorHandler\<close> does when it is set, and whether
  \<^verbatim>\<open>(inBrowser || inWeex) && typeof console !== 'undefined'\<close> holds;
  \<open>toStringThrows\<close> gives, for an object, the exception its \<^verbatim>\<open>toString()\<close> throws,
  if it throws one.
  \<open>serverRendering\<close> is the value of \<^verbatim>\<open>isServerRendering()\<close>; \<open>reachable\<close> lists,
  for an object, the dependency nodes behind the properties a deep traversal reads.
\<close>

datatype handler_result = HandlerReturns | HandlerThrows jsval

datatype hook_result = HookFalse | HookOther | HookThrows jsval

record env =
  production :: bool
  async :: bool
  errorCaptured :: "hook_result list"
  errorHandler :: "handler_result option"
  hasConsole :: bool
  toStringThrows :: "nat \<Rightarrow> jsval option"
  serverRendering :: bool
  reachable :: "nat \<Rightarrow> nat list"

section \<open>Dependency nodes and the target stack (\<^verbatim>\<open>src/core/observer/dep.js\<close>)\<close>

text \<open>
  Watchers and dependency nodes are objects with a unique \<^verbatim>\<open>id\<close> (both classes
  number their instances from a module counter), so the store maps an id to the
  fields of the object; \<open>subs\<close> is \<^verbatim>\<open>Dep.subs\<close> of each node, \<open>target\<close> is
  \<^verbatim>\<open>Dep.target\<close> (\<open>None\<close> for \<^verbatim>\<open>null\<close> and \<^verbatim>\<open>undefined\<close>).
\<close>

record watcher =
  deep :: bool
  user :: bool
  lazy :: bool
  sync :: bool
  dirty :: bool
  deps :: "nat list"
  newDeps :: "nat list"
  depIds :: "nat set"
  newDepIds :: "nat set"

record rstate =
  subs :: "nat \<Rightarrow> nat list"
  target :: "nat option"
  targetStack :: "nat option list"
  watchers :: "nat \<Rightarrow> watcher"

definition addSub :: "rstate \<Rightarrow> nat \<Rightarrow> nat \<Rightarrow> rstate" where
  "addSub s d w = s\<lparr>subs := (subs s)(d := subs s d @ [w])\<rparr>"

text \<open>
  Modelled from the spec: \<^verbatim>\<open>remove(arr, item)\<close> of \<^verbatim>\<open>shared/util\<close> is not among
  the sources; unsubscribing takes the first occurrence of the watcher out of the list.
\<close>

definition removeSub :: "rstate \<Rightarrow> nat \<Rightarrow> nat \<Rightarrow> rstate" where
  "removeSub s d w = s\<lparr>subs := (subs s)(d := remove1 w (subs s d))\<rparr>"

definition pushTarget :: "rstate \<Rightarrow> nat option \<Rightarrow> rstate" where
  "pushTarget s t = s\<lparr>targetStack := targetStack s @ [t], target := t\<rparr>"

text \<open>\<^verbatim>\<open>targetStack[targetStack.length - 1]\<close>, \<^verbatim>\<open>undefined\<close> on the empty stack.\<close>

definition stackTop :: "nat option list \<Rightarrow> nat option" where
  "stackTop st = (if st = [] then None else last st)"

definition popTarget :: "rstate \<Rightarrow> rstate" where
  "popTarget s =
     (let st = butlast (targetStack s)
      in s\<lparr>targetStack := st, target := stackTop st\<rparr>)"

section \<open>Watchers (\<^verbatim>\<open>src/core/observer/watcher.js\<close>)\<close>

definition addDep :: "rstate \<Rightarrow> nat \<Rightarrow> nat \<Rightarrow> rstate" where
  "addDep s w d =
     (let W = watchers s w in
      if d \<notin> newDepIds W then
        let s1 = s\<lparr>watchers := (watchers s)
                    (w := W\<lparr>newDepIds := insert d (newDepIds W), newDeps := newDeps W @ [d]\<rparr>)\<rparr>
        in if d \<notin> depIds W then addSub s1 d w else s1
      else s)"

text \<open>\<^verbatim>\<open>Dep.depend\<close>: registers the node with the current reader, if there is one.\<close>

definition depend :: "rstate \<Rightarrow> nat \<Rightarrow> rstate" where
  "depend s d = (case target s of Some w \<Rightarrow> addDep s w d | None \<Rightarrow> s)"

text \<open>
  The \<^verbatim>\<open>while (i--)\<close> loop walks \<^verbatim>\<open>deps\<close> from its last element to its first;
  the two swaps leave the pending collections empty.
\<close>

definition cleanupDeps :: "rstate \<Rightarrow> nat \<Rightarrow> rstate" where
  "cleanupDeps s w =
     (let W = watchers s w;
          s1 = foldl (\<lambda>t d. if d \<notin> newDepIds W then removeSub t d w else t) s (rev (deps W))
      in s1\<lparr>watchers := (watchers s1)
              (w := W\<lparr>depIds := newDepIds W, newDepIds := {},
                       deps := newDeps W, newDeps := []\<rparr>)\<rparr>)"

text \<open>
  Modelled from the spec: \<^verbatim>\<open>traverse\<close> of \<^verbatim>\<open>src/core/observer/traverse.js\<close> is not
  among the sources. It touches every reachable property of the value, which calls
  \<^verbatim>\<open>depend()\<close> on the nodes \<open>reachable\<close> lists for an object; a value that is not
  an object has no property to touch.
\<close>

definition traverse :: "env \<Rightarrow> rstate \<Rightarrow> jsval \<Rightarrow> rstate" where
  "traverse env s v = (case v of VRef r \<Rightarrow> foldl depend s (reachable env r) | _ \<Rightarrow> s)"

section \<open>Error reporting (\<^verbatim>\<open>src/core/util/error.js\<close>)\<close>

text \<open>Errors are values: \<open>Inl e\<close> is the exception \<open>e\<close> leaving the function.\<close>

text \<open>
  \<^verbatim>\<open>err.toString()\<close>, evaluated to build the argument of \<^verbatim>\<open>warn\<close>: \<open>None\<close> when
  it yields a string, \<open>Some x\<close> when it throws \<open>x\<close>. Reading a property of
  \<^verbatim>\<open>undefined\<close> or \<^verbatim>\<open>null\<close> raises a TypeError; for an object the outcome is that
  of its own \<^verbatim>\<open>toString\<close>, given by \<open>toStringThrows\<close>.
\<close>

definition toStringError :: "env \<Rightarrow> jsval \<Rightarrow> jsval option" where
  "toStringError env err =
     (case err of
        VUndefined \<Rightarrow> Some VTypeError
      | VNull \<Rightarrow> Some VTypeError
      | VRef r \<Rightarrow> toStringThrows env r
      | _ \<Rightarrow> None)"

text \<open>
  Modelled from the spec: \<^verbatim>\<open>warn\<close> of \<^verbatim>\<open>src/core/util/debug.js\<close> is not among the
  sources; it prints a diagnostic and returns. Its argument is evaluated
  first, so outside production an error whose \<^verbatim>\<open>toString\<close> throws leaves
  \<^verbatim>\<open>logError\<close> before the console is looked at.
\<close>

definition logError :: "env \<Rightarrow> jsval \<Rightarrow> jsval + unit" where
  "logError env err =
     (case (if \<not> production env then toStringError env err else None) of
        Some x \<Rightarrow> Inl x
      | None \<Rightarrow> if hasConsole env then Inr () else Inl err)"

definition globalHandleError :: "env \<Rightarrow> jsval \<Rightarrow> jsval + unit" where
  "globalHandleError env err =
     (case errorHandler env of
        None \<Rightarrow> logError env err
      | Some HandlerReturns \<Rightarrow> Inr ()
      | Some (HandlerThrows e) \<Rightarrow>
          if \<not> strict_eq e err then
            (case logError env e of Inl x \<Rightarrow> Inl x | Inr u \<Rightarrow> logError env err)
          else logError env err)"

text \<open>
  The walk over the \<^verbatim>\<open>errorCaptured\<close> hooks of the ancestors: \<open>Inr True\<close> when a
  hook returned \<^verbatim>\<open>false\<close> (the handler returns at once), \<open>Inr False\<close> when the
  walk ends, \<open>Inl e\<close> when reporting a throwing hook throws.
\<close>

fun runErrorCaptured :: "env \<Rightarrow> hook_result list \<Rightarrow> jsval + bool" where
  "runErrorCaptured env [] = Inr False"
| "runErrorCaptured env (HookFalse # hs) = Inr True"
| "runErrorCaptured env (HookOther # hs) = runErrorCaptured env hs"
| "runErrorCaptured env (HookThrows e # hs) =
     (case globalHandleError env e of Inl x \<Rightarrow> Inl x | Inr u \<Rightarrow> runErrorCaptured env hs)"

text \<open>
  The body of the \<^verbatim>\<open>try\<close> block of \<^verbatim>\<open>handleError\<close>; it touches no reactive state.
\<close>

definition handleErrorBody :: "env \<Rightarrow> jsval \<Rightarrow> jsval + unit" where
  "handleErrorBody env err =
     (case runErrorCaptured env (errorCaptured env) of
        Inl x \<Rightarrow> Inl x
      | Inr True \<Rightarrow> Inr ()
      | Inr False \<Rightarrow> globalHandleError env err)"

definition handleError :: "env \<Rightarrow> rstate \<Rightarrow> jsval \<Rightarrow> rstate \<times> (jsval + unit)" where
  "handleError env s err =
     (let s1 = pushTarget s None;
          r = handleErrorBody env err
      in (popTarget s1, r))"

section \<open>Evaluating a getter\<close>

text \<open>
  What a getter, a hook or a callback does to this state during one call: it reads
  reactive properties, which calls \<^verbatim>\<open>depend()\<close> on their nodes, and it may evaluate
  other watchers (a computed property read inside a render function) through their
  \<^verbatim>\<open>get()\<close>; then it returns a value or throws.
\<close>

datatype outcome = Returns jsval | Throws jsval

datatype event = Depend nat | Get nat "event list" outcome

fun exec_event :: "env \<Rightarrow> rstate \<Rightarrow> event \<Rightarrow> rstate"
  and exec_events :: "env \<Rightarrow> rstate \<Rightarrow> event list \<Rightarrow> rstate"
  and get :: "env \<Rightarrow> rstate \<Rightarrow> nat \<Rightarrow> event list \<Rightarrow> outcome \<Rightarrow> rstate \<times> (jsval + jsval)"
where
  "exec_event env s (Depend d) = depend s d"
| "exec_event env s (Get w evs out) = fst (get env s w evs out)"
| "exec_events env s [] = s"
| "exec_events env s (e # es) = exec_events env (exec_event env s e) es"
| "get env s w evs out =
     (let s1 = pushTarget s (Some w);
          s2 = exec_events env s1 evs;
          (s3, r) = (case out of
                       Returns v \<Rightarrow> (s2, Inr v)
                     | Throws e \<Rightarrow>
                         if user (watchers s2 w) then
                           (case handleError env s2 e of
                              (s', Inl x) \<Rightarrow> (s', Inl x)
                            | (s', Inr u) \<Rightarrow> (s', Inr VUndefined))
                         else (s2, Inl e));
          val = (case r of Inr v \<Rightarrow> v | Inl x \<Rightarrow> VUndefined);
          s4 = (if deep (watchers s3 w) then traverse env s3 val else s3);
          s5 = popTarget s4
      in (cleanupDeps s5 w, r))"

text \<open>\<^verbatim>\<open>Dep.notify\<close>: the watchers whose \<^verbatim>\<open>update()\<close> is called, in call order.\<close>

definition notify :: "env \<Rightarrow> rstate \<Rightarrow> nat \<Rightarrow> nat list" where
  "notify env s d =
     (let snapshot = subs s d
      in if \<not> production env \<and> \<not> async env then sort snapshot else snapshot)"

section \<open>Lifecycle hooks (\<^verbatim>\<open>callHook\<close> of \<^verbatim>\<open>src/core/instance/lifecycle.js\<close>)\<close>

text \<open>
  \<^verbatim>\<open>invokeWithErrorHandling\<close> for each handler in turn: a throwing handler is reported
  through \<open>handleError\<close>, and only an exception leaving \<open>handleError\<close> ends the loop.
\<close>

fun invokeAll :: "env \<Rightarrow> rstate \<Rightarrow> (event list \<times> outcome) list \<Rightarrow> rstate \<times> (jsval + unit)" where
  "invokeAll env s [] = (s, Inr ())"
| "invokeAll env s ((evs, out) # hs) =
     (let s1 = exec_events env s evs in
      case out of
        Returns v \<Rightarrow> invokeAll env s1 hs
      | Throws e \<Rightarrow>
          (case handleError env s1 e of
             (s2, Inl x) \<Rightarrow> (s2, Inl x)
           | (s2, Inr u) \<Rightarrow> invokeAll env s2 hs))"

text \<open>
  \<open>handlers\<close> are \<^verbatim>\<open>vm.$options[hook]\<close>, \<open>listeners\<close> the callbacks of the
  \<^verbatim>\<open>hook:\<close> event that \<^verbatim>\<open>$emit\<close> invokes when \<^verbatim>\<open>vm._hasHookEvent\<close> is set
  (empty otherwise).
\<close>

definition callHook ::
  "env \<Rightarrow> rstate \<Rightarrow> (event list \<times> outcome) list \<Rightarrow> (event list \<times> outcome) list
     \<Rightarrow> rstate \<times> (jsval + unit)" where
  "callHook env s handlers listeners =
     (let s1 = pushTarget s None in
      case invokeAll env s1 handlers of
        (s2, Inl x) \<Rightarrow> (s2, Inl x)
      | (s2, Inr u) \<Rightarrow>
          (case invokeAll env s2 listeners of
             (s3, Inl x) \<Rightarrow> (s3, Inl x)
           | (s3, Inr u) \<Rightarrow> (popTarget s3, Inr ())))"

section \<open>The scheduler (\<^verbatim>\<open>src/core/observer/scheduler.js\<close>)\<close>

definition MAX_UPDATE_COUNT :: nat where
  "MAX_UPDATE_COUNT = 100"

text \<open>
  The module variables. \<open>has\<close> holds the ids \<^verbatim>\<open>id\<close> with \<^verbatim>\<open>has[id] === true\<close>: the
  code tests \<^verbatim>\<open>has[id] == null\<close> and \<^verbatim>\<open>has[id] != null\<close> only, which do not tell
  \<^verbatim>\<open>null\<close> from a missing key. \<open>circular\<close> reads \<open>0\<close> for a missing key
  (\<^verbatim>\<open>circular[id] || 0\<close>). \<open>scheduled\<close> records the flushes \<open>queueWatcher\<close> asked
  for: \<open>FlushNow\<close> for the direct call of \<^verbatim>\<open>flushSchedulerQueue()\<close>, \<open>NextTick\<close> for
  \<^verbatim>\<open>nextTick(flushSchedulerQueue)\<close>.
\<close>

datatype request = FlushNow | NextTick

record sched =
  queue :: "nat list"
  has :: "nat set"
  circular :: "nat \<Rightarrow> nat"
  waiting :: bool
  flushing :: bool
  index :: nat
  scheduled :: "request list"

definition resetSchedulerState :: "env \<Rightarrow> sched \<Rightarrow> sched" where
  "resetSchedulerState env s =
     s\<lparr>index := 0, queue := [], has := {},
       circular := (if \<not> production env then (\<lambda>i. 0) else circular s),
       waiting := False, flushing := False\<rparr>"

text \<open>
  \<^verbatim>\<open>while (i > index && queue[i].id > watcher.id) i--\<close>; \<open>i\<close> starts at
  \<^verbatim>\<open>queue.length - 1\<close>, which is \<open>-1\<close> on the empty queue.
\<close>

function scan_back :: "nat list \<Rightarrow> nat \<Rightarrow> int \<Rightarrow> nat \<Rightarrow> int" where
  "scan_back q idx i w =
     (if i > int idx \<and> q ! nat i > w then scan_back q idx (i - 1) w else i)"
  by pat_completeness auto
termination
  by (relation "measure (\<lambda>(q, idx, i, w). nat (i - int idx))") auto

declare scan_back.simps [simp del]

definition queueWatcher :: "env \<Rightarrow> sched \<Rightarrow> nat \<Rightarrow> sched" where
  "queueWatcher env s w =
     (if w \<notin> has s then
        let s1 = s\<lparr>has := insert w (has s)\<rparr>;
            s2 = (if \<not> flushing s1 then s1\<lparr>queue := queue s1 @ [w]\<rparr>
                  else
                    let i = scan_back (queue s1) (index s1) (int (length (queue s1)) - 1) w;
                        n = nat (i + 1)
                    in s1\<lparr>queue := take n (queue s1) @ w # drop n (queue s1)\<rparr>)
        in if \<not> waiting s2 then
             s2\<lparr>waiting := True,
                scheduled := scheduled s2 @
                  [if \<not> production env \<and> \<not> async env then FlushNow else NextTick]\<rparr>
           else s2
      else s)"

text \<open>
  What the code a flush calls does to the scheduler: \<^verbatim>\<open>watcher.before()\<close> and
  \<^verbatim>\<open>watcher.run()\<close> change the application state \<open>'u\<close> and, through the writes
  they perform, call \<open>queueWatcher\<close> for a sequence of watchers. The loop reads
  \<^verbatim>\<open>queue.length\<close> afresh at every step and may run for ever, so it takes fuel and
  returns \<open>None\<close> when the fuel does not suffice. The result holds the scheduler, the
  application state, the watchers whose \<^verbatim>\<open>run()\<close> was called, in call order, and
  whether the loop ended by the \<^verbatim>\<open>break\<close> after the warning.
\<close>

type_synonym 'u behaviour = "'u \<Rightarrow> nat \<Rightarrow> 'u \<times> nat list"

fun flushLoop ::
  "nat \<Rightarrow> env \<Rightarrow> 'u behaviour \<Rightarrow> 'u behaviour \<Rightarrow> sched \<Rightarrow> 'u \<Rightarrow> nat list
     \<Rightarrow> (sched \<times> 'u \<times> nat list \<times> bool) option" where
  "flushLoop 0 env bf rn s u tr =
     (if index s < length (queue s) then None else Some (s, u, tr, False))"
| "flushLoop (Suc fuel) env bf rn s u tr =
     (if index s < length (queue s) then
        let w = queue s ! index s;
            (u1, t1) = bf u w;
            s1 = foldl (queueWatcher env) s t1;
            s2 = s1\<lparr>has := has s1 - {w}\<rparr>;
            (u2, t2) = rn u1 w;
            s3 = foldl (queueWatcher env) s2 t2
        in if \<not> production env \<and> w \<in> has s3 then
             let s4 = s3\<lparr>circular := (circular s3)(w := circular s3 w + 1)\<rparr>
             in if circular s4 w > MAX_UPDATE_COUNT then Some (s4, u2, tr @ [w], True)
                else flushLoop fuel env bf rn (s4\<lparr>index := index s4 + 1\<rparr>) u2 (tr @ [w])
           else flushLoop fuel env bf rn (s3\<lparr>index := index s3 + 1\<rparr>) u2 (tr @ [w])
      else Some (s, u, tr, False))"

text \<open>
  \<open>flushSchedulerQueue\<close> up to and including \<open>resetSchedulerState\<close>. The last component
  is the copy \<^verbatim>\<open>updatedQueue\<close> handed to the hooks that run after the reset; the
  hooks themselves belong to the component layer.
\<close>

definition flushSchedulerQueue ::
  "nat \<Rightarrow> env \<Rightarrow> 'u behaviour \<Rightarrow> 'u behaviour \<Rightarrow> sched \<Rightarrow> 'u
     \<Rightarrow> (sched \<times> 'u \<times> nat list \<times> bool \<times> nat list) option" where
  "flushSchedulerQueue fuel env bf rn s u =
     (let s0 = s\<lparr>flushing := True, queue := sort (queue s), index := 0\<rparr>
      in case flushLoop fuel env bf rn s0 u [] of
           None \<Rightarrow> None
         | Some (s1, u1, tr, warned) \<Rightarrow>
             Some (resetSchedulerState env s1, u1, tr, warned, queue s1))"

text \<open>
  The loop of \<open>flushSchedulerQueue\<close> after at most \<open>n\<close> iterations: the steps of
  \<open>flushLoop\<close>, and where \<open>flushLoop\<close> gives up for want of fuel, the scheduler, the
  application state and the calls of \<^verbatim>\<open>run()\<close> reached so far. \<open>Running\<close> says that
  the loop goes on, \<open>Finished\<close> that the cursor has reached the end of the queue,
  \<open>Broke\<close> that the loop ended by the \<^verbatim>\<open>break\<close> after the warning.
\<close>

datatype progress = Running | Finished | Broke

fun flushPrefix ::
  "nat \<Rightarrow> env \<Rightarrow> 'u behaviour \<Rightarrow> 'u behaviour \<Rightarrow> sched \<Rightarrow> 'u \<Rightarrow> nat list
     \<Rightarrow> sched \<times> 'u \<times> nat list \<times> progress" where
  "flushPrefix 0 env bf rn s u tr =
     (s, u, tr, if index s < length (queue s) then Running else Finished)"
| "flushPrefix (Suc n) env bf rn s u tr =
     (if index s < length (queue s) then
        let w = queue s ! index s;
            (u1, t1) = bf u w;
            s1 = foldl (queueWatcher env) s t1;
            s2 = s1\<lparr>has := has s1 - {w}\<rparr>;
            (u2, t2) = rn u1 w;
            s3 = foldl (queueWatcher env) s2 t2
        in if \<not> production env \<and> w \<in> has s3 then
             let s4 = s3\<lparr>circular := (circular s3)(w := circular s3 w + 1)\<rparr>
             in if circular s4 w > MAX_UPDATE_COUNT then (s4, u2, tr @ [w], Broke)
                else flushPrefix n env bf rn (s4\<lparr>index := index s4 + 1\<rparr>) u2 (tr @ [w])
           else flushPrefix n env bf rn (s3\<lparr>index := index s3 + 1\<rparr>) u2 (tr @ [w])
      else (s, u, tr, Finished))"

section \<open>Observed values (\<^verbatim>\<open>src/core/observer/index.js\<close>)\<close>

text \<open>
  Objects live in a heap. \<open>kind\<close> is what \<^verbatim>\<open>typeof\<close>, \<^verbatim>\<open>Array.isArray\<close>,
  \<^verbatim>\<open>instanceof VNode\<close> and the class tag tell of an object; \<open>OtherObject\<close> stands
  for the objects that are neither arrays nor plain (dates, regular expressions, maps).
  \<open>ob\<close> is the own property \<^verbatim>\<open>__ob__\<close> when it holds an \<^verbatim>\<open>Observer\<close> instance,
  \<open>isVue\<close> the flag \<^verbatim>\<open>_isVue\<close>, \<open>elems\<close> the elements of an array.
\<close>

datatype objkind = PlainObject | ArrayObject | FunctionObject | VNodeObject | OtherObject

record jsobj =
  kind :: objkind
  ob :: "nat option"
  extensible :: bool
  isVue :: bool
  elems :: "jsval list"

record observer =
  ob_value :: nat
  ob_dep :: nat
  vmCount :: nat

record heap =
  objs :: "nat \<Rightarrow> jsobj"
  observers :: "nat \<Rightarrow> observer"
  shouldObserve :: bool

text \<open>
  Modelled from the spec: \<^verbatim>\<open>isObject\<close> of \<^verbatim>\<open>shared/util\<close> is not among the
  sources. It holds of the values that are not primitives: the references to objects
  whose \<^verbatim>\<open>typeof\<close> is \<^verbatim>\<open>'object'\<close>, which a function is not.
\<close>

definition isObject :: "heap \<Rightarrow> jsval \<Rightarrow> bool" where
  "isObject h v = (case v of VRef r \<Rightarrow> kind (objs h r) \<noteq> FunctionObject | _ \<Rightarrow> False)"

text \<open>
  Modelled from the spec: \<^verbatim>\<open>isPlainObject\<close> of \<^verbatim>\<open>shared/util\<close> is not among the
  sources. It holds of the plain objects.
\<close>

definition isPlainObject :: "heap \<Rightarrow> jsval \<Rightarrow> bool" where
  "isPlainObject h v = (case v of VRef r \<Rightarrow> kind (objs h r) = PlainObject | _ \<Rightarrow> False)"

text \<open>
  \<^verbatim>\<open>value instanceof VNode\<close>, \<^verbatim>\<open>Array.isArray(value)\<close>, \<^verbatim>\<open>Object.isExtensible(value)\<close>,
  \<^verbatim>\<open>value._isVue\<close>, and \<^verbatim>\<open>value.__ob__\<close> when
  \<^verbatim>\<open>hasOwn(value, '__ob__') && value.__ob__ instanceof Observer\<close>.
\<close>

definition instanceofVNode :: "heap \<Rightarrow> jsval \<Rightarrow> bool" where
  "instanceofVNode h v = (case v of VRef r \<Rightarrow> kind (objs h r) = VNodeObject | _ \<Rightarrow> False)"

definition isArray :: "heap \<Rightarrow> jsval \<Rightarrow> bool" where
  "isArray h v = (case v of VRef r \<Rightarrow> kind (objs h r) = ArrayObject | _ \<Rightarrow> False)"

definition isExtensible :: "heap \<Rightarrow> jsval \<Rightarrow> bool" where
  "isExtensible h v = (case v of VRef r \<Rightarrow> extensible (objs h r) | _ \<Rightarrow> False)"

definition markedVue :: "heap \<Rightarrow> jsval \<Rightarrow> bool" where
  "markedVue h v = (case v of VRef r \<Rightarrow> isVue (objs h r) | _ \<Rightarrow> False)"

definition ownObserver :: "heap \<Rightarrow> jsval \<Rightarrow> nat option" where
  "ownObserver h v = (case v of VRef r \<Rightarrow> ob (objs h r) | _ \<Rightarrow> None)"

text \<open>
  \<^verbatim>\<open>new Observer(value)\<close> walks the properties and the elements of the value and calls
  \<open>observe\<close> on them in turn. The functions below take it as the parameter
  \<open>construct\<close>: the heap after the constructor and the new observer.
\<close>

type_synonym constructor = "heap \<Rightarrow> nat \<Rightarrow> heap \<times> nat"

definition observe :: "env \<Rightarrow> constructor \<Rightarrow> heap \<Rightarrow> jsval \<Rightarrow> bool \<Rightarrow> heap \<times> nat option" where
  "observe env construct h v asRootData =
     (if \<not> isObject h v \<or> instanceofVNode h v then (h, None)
      else
        let (h1, res) =
              (case ownObserver h v of
                 Some i \<Rightarrow> (h, Some i)
               | None \<Rightarrow>
                   if shouldObserve h \<and> \<not> serverRendering env \<and>
                      (isArray h v \<or> isPlainObject h v) \<and>
                      isExtensible h v \<and> \<not> markedVue h v
                   then (case v of
                           VRef r \<Rightarrow> (let (h', i) = construct h r in (h', Some i))
                         | _ \<Rightarrow> (h, None))
                   else (h, None))
        in (case res of
              Some i \<Rightarrow>
                if asRootData then
                  (h1\<lparr>observers := (observers h1)
                         (i := (observers h1 i)\<lparr>vmCount := vmCount (observers h1 i) + 1\<rparr>)\<rparr>,
                   Some i)
                else (h1, Some i)
            | None \<Rightarrow> (h1, None)))"

definition observeArray :: "env \<Rightarrow> constructor \<Rightarrow> heap \<Rightarrow> jsval list \<Rightarrow> heap" where
  "observeArray env construct h items =
     foldl (\<lambda>t item. fst (observe env construct t item False)) h items"

text \<open>
  The closure of one \<open>defineReactive\<close> call: \<open>val\<close>, \<open>dep\<close>, \<open>childOb\<close> and the
  accessors the property had before. A pre-defined getter reads, and a pre-defined
  setter writes, a store of their own (\<open>backing\<close>).
\<close>

record rprop =
  val :: jsval
  backing :: jsval
  getter :: "(jsval \<Rightarrow> jsval) option"
  setter :: "(jsval \<Rightarrow> jsval \<Rightarrow> jsval) option"
  shallow :: bool
  customSetter :: bool
  childOb :: "nat option"
  dep :: nat

text \<open>\<^verbatim>\<open>getter ? getter.call(obj) : val\<close>\<close>

definition currentValue :: "rprop \<Rightarrow> jsval" where
  "currentValue p = (case getter p of Some g \<Rightarrow> g (backing p) | None \<Rightarrow> val p)"

text \<open>
  \<open>reactiveSetter\<close> returns the heap, the closure, the number of calls of
  \<^verbatim>\<open>customSetter\<close> and the nodes whose \<^verbatim>\<open>notify()\<close> it called.
\<close>

definition reactiveSetter ::
  "env \<Rightarrow> constructor \<Rightarrow> heap \<Rightarrow> rprop \<Rightarrow> jsval \<Rightarrow> heap \<times> rprop \<times> nat \<times> nat list" where
  "reactiveSetter env construct h p newVal =
     (let value = currentValue p in
      if strict_eq newVal value \<or> (\<not> strict_eq newVal newVal \<and> \<not> strict_eq value value)
      then (h, p, 0, [])
      else
        let calls = (if \<not> production env \<and> customSetter p then 1 else 0) in
        if getter p \<noteq> None \<and> setter p = None then (h, p, calls, [])
        else
          let p1 = (case setter p of
                      Some f \<Rightarrow> p\<lparr>backing := f (backing p) newVal\<rparr>
                    | None \<Rightarrow> p\<lparr>val := newVal\<rparr>);
              (h1, child) = (if shallow p then (h, None)
                             else observe env construct h newVal False)
          in (h1, p1\<lparr>childOb := child\<rparr>, calls, [dep p]))"

text \<open>The watchers whose \<^verbatim>\<open>update()\<close> the listed \<^verbatim>\<open>notify()\<close> calls invoke.\<close>

definition updates :: "env \<Rightarrow> rstate \<Rightarrow> nat list \<Rightarrow> nat list" where
  "updates env s ds = concat (map (notify env s) ds)"

section \<open>Array methods (\<^verbatim>\<open>src/core/observer/array.js\<close>)\<close>

datatype array_method = Push | Pop | Shift | Unshift | Splice | Sort | Reverse

text \<open>
  The methods of \<^verbatim>\<open>Array.prototype\<close> belong to the engine: \<open>arrayProto m xs args\<close>
  gives the elements after the call and the value it returns. A patched method of an
  array without \<^verbatim>\<open>__ob__\<close> fails on \<^verbatim>\<open>ob.observeArray\<close>.
\<close>

type_synonym builtins = "array_method \<Rightarrow> jsval list \<Rightarrow> jsval list \<Rightarrow> jsval list \<times> jsval"

datatype js_error = TypeError

definition inserted :: "array_method \<Rightarrow> jsval list \<Rightarrow> jsval list option" where
  "inserted m args =
     (case m of
        Push \<Rightarrow> Some args
      | Unshift \<Rightarrow> Some args
      | Splice \<Rightarrow> Some (drop 2 args)
      | _ \<Rightarrow> None)"

definition mutator ::
  "env \<Rightarrow> constructor \<Rightarrow> builtins \<Rightarrow> array_method \<Rightarrow> heap \<Rightarrow> nat \<Rightarrow> jsval list
     \<Rightarrow> js_error + heap \<times> jsval \<times> nat list" where
  "mutator env construct arrayProto m h this args =
     (let (xs, result) = arrayProto m (elems (objs h this)) args;
          h1 = h\<lparr>objs := (objs h)(this := (objs h this)\<lparr>elems := xs\<rparr>)\<rparr>
      in case ob (objs h1 this) of
           None \<Rightarrow> Inl TypeError
         | Some i \<Rightarrow>
             let h2 = (case inserted m args of
                         Some items \<Rightarrow> observeArray env construct h1 items
                       | None \<Rightarrow> h1)
             in Inr (h2, result, [ob_dep (observers h2 i)]))"

section \<open>Paths (\<^verbatim>\<open>src/core/util/lang.js\<close>) and the getter of a watcher\<close>

text \<open>The character class of \<^verbatim>\<open>unicodeRegExp.source\<close>, on UTF-16 code units.\<close>

definition unicodeRegExp :: "nat \<Rightarrow> bool" where
  "unicodeRegExp c =
     ((0x61 \<le> c \<and> c \<le> 0x7A) \<or> (0x41 \<le> c \<and> c \<le> 0x5A) \<or> c = 0xB7 \<or>
      (0xC0 \<le> c \<and> c \<le> 0xD6) \<or> (0xD8 \<le> c \<and> c \<le> 0xF6) \<or>
      (0xF8 \<le> c \<and> c \<le> 0x37D) \<or> (0x37F \<le> c \<and> c \<le> 0x1FFF) \<or>
      (0x200C \<le> c \<and> c \<le> 0x200D) \<or> (0x203F \<le> c \<and> c \<le> 0x2040) \<or>
      (0x2070 \<le> c \<and> c \<le> 0x218F) \<or> (0x2C00 \<le> c \<and> c \<le> 0x2FEF) \<or>
      (0x3001 \<le> c \<and> c \<le> 0xD7FF) \<or> (0xF900 \<le> c \<and> c \<le> 0xFDCF) \<or>
      (0xFDF0 \<le> c \<and> c \<le> 0xFFFD))"

text \<open>
  \<^verbatim>\<open>bailRE\<close> is the negated class of the letters above, \<^verbatim>\<open>.\<close>, \<^verbatim>\<open>$\<close>, \<^verbatim>\<open>_\<close> and
  the digits of \<^verbatim>\<open>\d\<close>; \<open>bailRE_test\<close> is \<^verbatim>\<open>bailRE.test(path)\<close>.
\<close>

definition allowed :: "nat \<Rightarrow> bool" where
  "allowed c = (unicodeRegExp c \<or> c = 0x2E \<or> c = 0x24 \<or> c = 0x5F \<or> (0x30 \<le> c \<and> c \<le> 0x39))"

definition bailRE_test :: "jsstring \<Rightarrow> bool" where
  "bailRE_test path = list_ex (\<lambda>c. \<not> allowed c) path"

text \<open>\<^verbatim>\<open>path.split('.')\<close>\<close>

fun split_dot :: "jsstring \<Rightarrow> jsstring list" where
  "split_dot [] = [[]]"
| "split_dot (c # cs) =
     (if c = 0x2E then [] # split_dot cs
      else (c # hd (split_dot cs)) # tl (split_dot cs))"

text \<open>
  \<open>parsePath\<close> returns \<^verbatim>\<open>undefined\<close> (\<open>None\<close>) or a closure over
  \<^verbatim>\<open>segments\<close>; \<open>pathGetter\<close> is the body of that closure. Reading
  \<^verbatim>\<open>obj[segments[i]]\<close> goes through the accessors of the object: \<open>lk obj seg\<close>
  gives the nodes whose \<^verbatim>\<open>depend()\<close> the read calls and the value read.
\<close>

definition parsePath :: "jsstring \<Rightarrow> jsstring list option" where
  "parsePath path = (if bailRE_test path then None else Some (split_dot path))"

type_synonym lookup = "jsval \<Rightarrow> jsstring \<Rightarrow> nat list \<times> jsval"

fun pathGetter :: "lookup \<Rightarrow> jsstring list \<Rightarrow> jsval \<Rightarrow> nat list \<times> jsval" where
  "pathGetter lk [] obj = ([], obj)"
| "pathGetter lk (seg # segs) obj =
     (if falsy obj then ([], VUndefined)
      else
        let (ds, v) = lk obj seg;
            (ds', r) = pathGetter lk segs v
        in (ds @ ds', r))"

text \<open>
  The constructor of \<^verbatim>\<open>Watcher\<close>: the getter it installs, with the number of
  warnings, and the first evaluation. A function is given by what one call of it
  does.
\<close>

datatype expOrFn = Function "event list" outcome | Path jsstring

datatype wgetter = FunctionGetter "event list" outcome | PathGetter "jsstring list" | Noop

definition watcherGetter :: "env \<Rightarrow> expOrFn \<Rightarrow> wgetter \<times> nat" where
  "watcherGetter env e =
     (case e of
        Function evs out \<Rightarrow> (FunctionGetter evs out, 0)
      | Path p \<Rightarrow>
          (case parsePath p of
             Some segs \<Rightarrow> (PathGetter segs, 0)
           | None \<Rightarrow> (Noop, if \<not> production env then 1 else 0)))"

text \<open>\<^verbatim>\<open>this.getter.call(vm, vm)\<close>: the reads of the call and how it ends.\<close>

definition callGetter :: "lookup \<Rightarrow> wgetter \<Rightarrow> jsval \<Rightarrow> event list \<times> outcome" where
  "callGetter lk g vm =
     (case g of
        FunctionGetter evs out \<Rightarrow> (evs, out)
      | PathGetter segs \<Rightarrow> (let (ds, v) = pathGetter lk segs vm in (map Depend ds, Returns v))
      | Noop \<Rightarrow> ([], Returns VUndefined))"

record options =
  opt_deep :: bool
  opt_user :: bool
  opt_lazy :: bool
  opt_sync :: bool

definition newWatcher ::
  "env \<Rightarrow> lookup \<Rightarrow> rstate \<Rightarrow> nat \<Rightarrow> options \<Rightarrow> expOrFn \<Rightarrow> jsval
     \<Rightarrow> rstate \<times> (jsval + jsval) \<times> nat" where
  "newWatcher env lk s w opts e vm =
     (let W = \<lparr>deep = opt_deep opts, user = opt_user opts, lazy = opt_lazy opts,
                sync = opt_sync opts, dirty = opt_lazy opts,
                deps = [], newDeps = [], depIds = {}, newDepIds = {}\<rparr>;
          s1 = s\<lparr>watchers := (watchers s)(w := W)\<rparr>;
          (g, warnings) = watcherGetter env e
      in if opt_lazy opts then (s1, Inr VUndefined, warnings)
         else
           let (evs, out) = callGetter lk g vm;
               (s2, r) = get env s1 w evs out
           in (s2, r, warnings))"

section \<open>Vocabulary of the properties\<close>

text \<open>The global reader agrees with the top of the stack.\<close>

definition stack_ok :: "rstate \<Rightarrow> bool" where
  "stack_ok s = (target s = stackTop (targetStack s))"

text \<open>The watchers whose \<^verbatim>\<open>get()\<close> runs somewhere inside an event.\<close>

fun evaluated :: "event \<Rightarrow> nat set"
  and evaluated_list :: "event list \<Rightarrow> nat set"
where
  "evaluated (Depend d) = {}"
| "evaluated (Get w evs out) = insert w (evaluated_list evs)"
| "evaluated_list [] = {}"
| "evaluated_list (e # es) = evaluated e \<union> evaluated_list es"

fun evaluated_handlers :: "(event list \<times> outcome) list \<Rightarrow> nat set" where
  "evaluated_handlers [] = {}"
| "evaluated_handlers ((evs, out) # hs) = evaluated_list evs \<union> evaluated_handlers hs"

text \<open>
  The errors the handlers throw, in call order, and the errors for which
  \<open>handleError\<close> returns instead of throwing.
\<close>

fun thrown :: "(event list \<times> outcome) list \<Rightarrow> jsval list" where
  "thrown [] = []"
| "thrown ((evs, Returns v) # hs) = thrown hs"
| "thrown ((evs, Throws e) # hs) = e # thrown hs"

definition handled :: "env \<Rightarrow> jsval \<Rightarrow> bool" where
  "handled env e = (handleErrorBody env e = Inr ())"

text \<open>
  The nodes whose \<^verbatim>\<open>depend()\<close> is called by the code of the getter itself, in
  call order (the reads of a nested evaluation belong to the nested watcher).
\<close>

fun direct_reads :: "event list \<Rightarrow> nat list" where
  "direct_reads [] = []"
| "direct_reads (Depend d # es) = d # direct_reads es"
| "direct_reads (Get w evs out # es) = direct_reads es"

text \<open>The nodes \<open>traverse\<close> touches in the \<^verbatim>\<open>finally\<close> block of \<^verbatim>\<open>get()\<close>.\<close>

definition touched :: "env \<Rightarrow> bool \<Rightarrow> jsval + jsval \<Rightarrow> nat list" where
  "touched env dp r = (case r of Inr (VRef a) \<Rightarrow> if dp then reachable env a else [] | _ \<Rightarrow> [])"

text \<open>
  The bookkeeping of a watcher while its getter runs: the pending list and the
  pending id set agree, and the watcher is subscribed once to every node of the
  previous or the pending set and to no other node.
\<close>

definition tracking :: "rstate \<Rightarrow> nat \<Rightarrow> bool" where
  "tracking s w =
     (let W = watchers s w in
      set (newDeps W) = newDepIds W \<and> distinct (newDeps W) \<and>
      (\<forall>d. count_list (subs s d) w = (if d \<in> depIds W \<union> newDepIds W then 1 else 0)))"

text \<open>
  A watcher between two evaluations, as the constructor and every completed
  \<^verbatim>\<open>get()\<close> leave it: nothing pending, \<^verbatim>\<open>deps\<close> and \<^verbatim>\<open>depIds\<close> agree, and it is
  subscribed once to each of its nodes and to no other.
\<close>

definition settled :: "rstate \<Rightarrow> nat \<Rightarrow> bool" where
  "settled s w =
     (let W = watchers s w in
      newDeps W = [] \<and> newDepIds W = {} \<and> set (deps W) = depIds W \<and>
      (\<forall>d. count_list (subs s d) w = (if d \<in> depIds W then 1 else 0)))"

text \<open>The values for which \<open>observe\<close> returns an observer and not \<^verbatim>\<open>undefined\<close>.\<close>

definition observable :: "env \<Rightarrow> heap \<Rightarrow> jsval \<Rightarrow> bool" where
  "observable env h v =
     (isObject h v \<and> \<not> instanceofVNode h v \<and>
      (ownObserver h v \<noteq> None \<or>
       (shouldObserve h \<and> \<not> serverRendering env \<and> (isArray h v \<or> isPlainObject h v) \<and>
        isExtensible h v \<and> \<not> markedVue h v)))"

text \<open>
  What the properties below need of \<^verbatim>\<open>new Observer(value)\<close>: it defines
  \<^verbatim>\<open>__ob__\<close> on the value, takes no \<^verbatim>\<open>__ob__\<close> away, and leaves the kind, the
  extensibility and the \<^verbatim>\<open>_isVue\<close> flag of every object and \<open>shouldObserve\<close> alone.
\<close>

definition marks :: "constructor \<Rightarrow> bool" where
  "marks construct =
     (\<forall>h r. ob (objs (fst (construct h r)) r) = Some (snd (construct h r)) \<and>
            shouldObserve (fst (construct h r)) = shouldObserve h \<and>
            (\<forall>q. kind (objs (fst (construct h r)) q) = kind (objs h q) \<and>
                 extensible (objs (fst (construct h r)) q) = extensible (objs h q) \<and>
                 isVue (objs (fst (construct h r)) q) = isVue (objs h q) \<and>
                 (ob (objs h q) \<noteq> None \<longrightarrow> ob (objs (fst (construct h r)) q) \<noteq> None)))"

text \<open>
  The predicates \<open>observe\<close> tests depend on the kind, the extensibility, the flag and
  the observer of the objects only.
\<close>

definition grows :: "heap \<Rightarrow> heap \<Rightarrow> bool" where
  "grows h h' =
     (shouldObserve h' = shouldObserve h \<and>
      (\<forall>q. kind (objs h' q) = kind (objs h q) \<and>
           extensible (objs h' q) = extensible (objs h q) \<and>
           isVue (objs h' q) = isVue (objs h q) \<and>
           (ob (objs h q) \<noteq> None \<longrightarrow> ob (objs h' q) \<noteq> None)))"

text \<open>The scheduler between two flushes, as \<open>resetSchedulerState\<close> leaves it.\<close>

definition idle :: "sched \<Rightarrow> bool" where
  "idle s = (queue s = [] \<and> has s = {} \<and> circular s = (\<lambda>i. 0) \<and>
             \<not> waiting s \<and> \<not> flushing s \<and> index s = 0)"

text \<open>The queue outside a flush: the pending ids are exactly the queued watchers, each once.\<close>

definition pending_ok :: "sched \<Rightarrow> bool" where
  "pending_ok s = (\<not> flushing s \<and> has s = set (queue s) \<and> distinct (queue s))"

text \<open>No call of \<^verbatim>\<open>before()\<close> or \<^verbatim>\<open>run()\<close> queues the watcher \<open>w\<close>.\<close>

definition never_requeued :: "nat \<Rightarrow> 'u behaviour \<Rightarrow> 'u behaviour \<Rightarrow> bool" where
  "never_requeued w bf rn = (\<forall>u v. w \<notin> set (snd (bf u v)) \<and> w \<notin> set (snd (rn u v)))"

section \<open>Example inputs\<close>

definition browser_env :: env where
  "browser_env = \<lparr>production = False, async = True, errorCaptured = [], errorHandler = None,
                   hasConsole = True, toStringThrows = (\<lambda>r. None), serverRendering = False, reachable = (\<lambda>r. [])\<rparr>"

definition node_env :: env where
  "node_env = browser_env\<lparr>hasConsole := False\<rparr>"

definition production_env :: env where
  "production_env = browser_env\<lparr>production := True\<rparr>"

definition production_sync_env :: env where
  "production_sync_env = browser_env\<lparr>production := True, async := False\<rparr>"

definition idle_sched :: sched where
  "idle_sched = \<lparr>queue = [], has = {}, circular = (\<lambda>i. 0), waiting = False,
                  flushing = False, index = 0, scheduled = []\<rparr>"

text \<open>A watcher that triggers nothing, and watcher 2 writing what watcher 1 reads.\<close>

definition quiet :: "unit behaviour" where
  "quiet u w = (u, [])"

definition child_writes_parent :: "unit behaviour" where
  "child_writes_parent u w = (u, if w = 2 then [1] else [])"

text \<open>A watcher whose \<^verbatim>\<open>run()\<close> writes its own dependency.\<close>

definition retrigger_self :: "unit behaviour" where
  "retrigger_self u w = (u, [w])"

text \<open>Watcher 1 alone writes its own dependency.\<close>

definition first_retriggers :: "unit behaviour" where
  "first_retriggers u w = (u, if w = 1 then [1] else [])"

text \<open>
  A watcher as the constructor leaves it before the first evaluation, and a state
  holding only such watchers; the second state makes watcher 1 a user watcher.
\<close>

definition fresh_watcher :: watcher where
  "fresh_watcher = \<lparr>deep = False, user = False, lazy = False, sync = False, dirty = False,
                      deps = [], newDeps = [], depIds = {}, newDepIds = {}\<rparr>"

definition fresh_state :: rstate where
  "fresh_state = \<lparr>subs = (\<lambda>d. []), target = None, targetStack = [],
                    watchers = (\<lambda>w. fresh_watcher)\<rparr>"

definition user_state :: rstate where
  "user_state = fresh_state\<lparr>watchers := (\<lambda>w. fresh_watcher\<lparr>user := True\<rparr>)\<rparr>"

text \<open>
  A getter of watcher 1 that reads node 10, evaluates watcher 1 again, which reads
  node 11, and reads node 12.
\<close>

definition reentrant_getter :: "event list" where
  "reentrant_getter = [Depend 10, Get 1 [Depend 11] (Returns VUndefined), Depend 12]"

text \<open>
  The getter \<^verbatim>\<open>() => cond ? a : b\<close> over three reactive properties with the nodes
  \<open>c\<close>, \<open>a\<close> and \<open>b\<close>; \<open>vals\<close> gives the value behind each node.
\<close>

definition ternary_getter :: "nat \<Rightarrow> nat \<Rightarrow> nat \<Rightarrow> (nat \<Rightarrow> jsval) \<Rightarrow> event list \<times> outcome" where
  "ternary_getter c a b vals =
     (if \<not> falsy (vals c) then ([Depend c, Depend a], Returns (vals a))
      else ([Depend c, Depend b], Returns (vals b)))"

definition cond_true :: "nat \<Rightarrow> jsval" where
  "cond_true d = (if d = 10 then VBool True else VNum (int d))"

definition cond_false :: "nat \<Rightarrow> jsval" where
  "cond_false d = (if d = 10 then VBool False else VNum (int d))"

text \<open>
  A heap of plain objects; object 0 was observed (observer 5) and frozen afterwards,
  object 1 is an observed array (observer 7, node 70), object 2 is not observed.
\<close>

definition plain_object :: jsobj where
  "plain_object = \<lparr>kind = PlainObject, ob = None, extensible = True, isVue = False, elems = []\<rparr>"

definition example_heap :: heap where
  "example_heap =
     \<lparr>objs = (\<lambda>r. plain_object)
         (0 := plain_object\<lparr>ob := Some 5, extensible := False\<rparr>,
          1 := plain_object\<lparr>kind := ArrayObject, ob := Some 7, elems := [VNum 1, VNum 2, VNum 3]\<rparr>),
      observers = (\<lambda>i. \<lparr>ob_value = 0, ob_dep = 10 * i, vmCount = 0\<rparr>),
      shouldObserve = True\<rparr>"

text \<open>A constructor that marks the object and does not descend, and the engine's \<^verbatim>\<open>push\<close>.\<close>

definition mark_only :: constructor where
  "mark_only h r =
     (h\<lparr>objs := (objs h)(r := (objs h r)\<lparr>ob := Some (100 + r)\<rparr>),
        observers := (observers h)(100 + r := \<lparr>ob_value = r, ob_dep = 1000 + r, vmCount = 0\<rparr>)\<rparr>,
      100 + r)"

definition push_only :: builtins where
  "push_only m xs args =
     (case m of Push \<Rightarrow> (xs @ args, VNum (int (length (xs @ args)))) | _ \<Rightarrow> (xs, VUndefined))"

definition example_prop :: rprop where
  "example_prop = \<lparr>val = VNaN, backing = VUndefined, getter = None, setter = None,
                     shallow = False, customSetter = False, childOb = None, dep = 3\<rparr>"

text \<open>An object graph for paths: \<^verbatim>\<open>{a: {b: 5}}\<close> at reference 0, \<^verbatim>\<open>{b: 5}\<close> at 1.\<close>

definition example_lookup :: lookup where
  "example_lookup obj seg =
     (if obj = VRef 0 \<and> seg = [0x61] then ([20], VRef 1)
      else if obj = VRef 1 \<and> seg = [0x62] then ([21], VNum 5)
      else ([], VUndefined))"

section \<open>Proofs: the target stack\<close>

lemma count_list_remove1:
  "count_list (remove1 y xs) x = (if x = y \<and> y \<in> set xs then count_list xs x - 1 else count_list xs x)"
  by (induction xs) auto

lemma count_list_sort: "count_list (sort xs) x = count_list xs x"
proof -
  have "count_list (insort y ys) x = count_list (y # ys) x" for y and ys :: "'a list"
    by (induction ys) auto
  then show ?thesis by (induction xs) (simp_all add: sort_key_def)
qed


lemma addDep_stack [simp]:
  "targetStack (addDep s w d) = targetStack s" "target (addDep s w d) = target s"
  by (simp_all add: addDep_def addSub_def Let_def)

lemma depend_stack [simp]:
  "targetStack (depend s d) = targetStack s" "target (depend s d) = target s"
  by (simp_all add: depend_def split: option.splits)

lemma foldl_depend_stack [simp]:
  "targetStack (foldl depend s ds) = targetStack s" "target (foldl depend s ds) = target s"
  by (induction ds arbitrary: s) simp_all

lemma traverse_stack [simp]:
  "targetStack (traverse env s v) = targetStack s" "target (traverse env s v) = target s"
  by (simp_all add: traverse_def split: jsval.splits)

lemma cleanup_fold_stack:
  "targetStack (foldl (\<lambda>t d. if P d then removeSub t d w else t) s ds) = targetStack s
   \<and> target (foldl (\<lambda>t d. if P d then removeSub t d w else t) s ds) = target s
   \<and> watchers (foldl (\<lambda>t d. if P d then removeSub t d w else t) s ds) = watchers s"
  by (induction ds arbitrary: s) (simp_all add: removeSub_def)

lemma cleanupDeps_stack [simp]:
  "targetStack (cleanupDeps s w) = targetStack s" "target (cleanupDeps s w) = target s"
  by (simp_all add: cleanupDeps_def Let_def cleanup_fold_stack)

lemma pushTarget_simps [simp]:
  "targetStack (pushTarget s t) = targetStack s @ [t]"
  "target (pushTarget s t) = t"
  "subs (pushTarget s t) = subs s"
  "watchers (pushTarget s t) = watchers s"
  by (simp_all add: pushTarget_def)

lemma popTarget_simps [simp]:
  "targetStack (popTarget s) = butlast (targetStack s)"
  "target (popTarget s) = stackTop (butlast (targetStack s))"
  "subs (popTarget s) = subs s"
  "watchers (popTarget s) = watchers s"
  by (simp_all add: popTarget_def Let_def)

lemma handleError_fst: "stack_ok s \<Longrightarrow> fst (handleError env s e) = s"
  by (simp add: handleError_def Let_def pushTarget_def popTarget_def stack_ok_def)

lemma handleError_snd: "snd (handleError env s e) = handleErrorBody env e"
  by (simp add: handleError_def Let_def)

lemma handleErrorD:
  "handleError env s e = (s', r) \<Longrightarrow>
     targetStack s' = targetStack s \<and> target s' = stackTop (targetStack s)
     \<and> subs s' = subs s \<and> watchers s' = watchers s"
  by (auto simp add: handleError_def Let_def)

lemma stack_preserved:
  "stack_ok s \<Longrightarrow> targetStack (exec_event env s e) = targetStack s \<and> target (exec_event env s e) = target s"
  "stack_ok s \<Longrightarrow> targetStack (exec_events env s es) = targetStack s \<and> target (exec_events env s es) = target s"
  "targetStack (fst (get env s w evs out)) = targetStack s \<and> target (fst (get env s w evs out)) = stackTop (targetStack s)"
proof (induction env s e and env s es and env s w evs out rule: exec_event_exec_events_get.induct)
  case (1 env s d)
  then show ?case by simp
next
  case (2 env s w evs out)
  then show ?case by (simp add: stack_ok_def)
next
  case (3 env s)
  then show ?case by simp
next
  case (4 env s e es)
  then show ?case by (simp add: stack_ok_def)
next
  case (5 env s w evs out)
  have ok: "stack_ok (pushTarget s (Some w))" by (simp add: stack_ok_def stackTop_def)
  note IH = 5[OF refl ok]
  show ?case
    using IH
    by (auto simp add: Let_def split: outcome.splits prod.splits sum.splits dest!: handleErrorD)
qed


subsection \<open>Frame\<close>

lemma addDep_other:
  "x \<noteq> w \<Longrightarrow> watchers (addDep s w d) x = watchers s x"
  "x \<noteq> w \<Longrightarrow> count_list (subs (addDep s w d) d') x = count_list (subs s d') x"
  by (simp_all add: addDep_def addSub_def Let_def)

lemma depend_other:
  "target s \<noteq> Some x \<Longrightarrow> watchers (depend s d) x = watchers s x"
  "target s \<noteq> Some x \<Longrightarrow> count_list (subs (depend s d) d') x = count_list (subs s d') x"
  by (auto simp add: depend_def addDep_other split: option.splits)

lemma foldl_depend_other:
  "target s \<noteq> Some x \<Longrightarrow>
     watchers (foldl depend s ds) x = watchers s x \<and>
     count_list (subs (foldl depend s ds) d') x = count_list (subs s d') x"
  by (induction ds arbitrary: s) (simp_all add: depend_other)

lemma traverse_other:
  "target s \<noteq> Some x \<Longrightarrow>
     watchers (traverse env s v) x = watchers s x \<and>
     count_list (subs (traverse env s v) d') x = count_list (subs s d') x"
  by (simp add: traverse_def foldl_depend_other split: jsval.splits)

lemma cleanup_fold_other:
  "x \<noteq> w \<Longrightarrow>
     count_list (subs (foldl (\<lambda>t d. if P d then removeSub t d w else t) s ds) d') x
       = count_list (subs s d') x"
  by (induction ds arbitrary: s) (simp_all add: removeSub_def count_list_remove1)

lemma cleanupDeps_other:
  "x \<noteq> w \<Longrightarrow> watchers (cleanupDeps s w) x = watchers s x"
  "x \<noteq> w \<Longrightarrow> count_list (subs (cleanupDeps s w) d') x = count_list (subs s d') x"
  by (simp_all add: cleanupDeps_def Let_def cleanup_fold_stack cleanup_fold_other)

lemma frame:
  "stack_ok s \<Longrightarrow> target s \<noteq> Some x \<Longrightarrow> x \<notin> evaluated e \<Longrightarrow>
     watchers (exec_event env s e) x = watchers s x \<and>
     (\<forall>d. count_list (subs (exec_event env s e) d) x = count_list (subs s d) x)"
  "stack_ok s \<Longrightarrow> target s \<noteq> Some x \<Longrightarrow> x \<notin> evaluated_list es \<Longrightarrow>
     watchers (exec_events env s es) x = watchers s x \<and>
     (\<forall>d. count_list (subs (exec_events env s es) d) x = count_list (subs s d) x)"
  "x \<noteq> w \<Longrightarrow> x \<notin> evaluated_list evs \<Longrightarrow>
     watchers (fst (get env s w evs out)) x = watchers s x \<and>
     (\<forall>d. count_list (subs (fst (get env s w evs out)) d) x = count_list (subs s d) x)"
proof (induction env s e and env s es and env s w evs out rule: exec_event_exec_events_get.induct)
  case (1 env s d)
  then show ?case by (simp add: depend_other)
next
  case (2 env s w evs out)
  then show ?case by simp
next
  case (3 env s)
  then show ?case by simp
next
  case (4 env s e es)
  have st: "stack_ok (exec_event env s e)" "target (exec_event env s e) \<noteq> Some x"
    using 4(3,4) stack_preserved(1)[OF 4(3), of env e] by (simp_all add: stack_ok_def)
  show ?case using 4(1)[OF 4(3,4)] 4(2)[OF st] 4(5) by simp
next
  case (5 env s w evs out)
  let ?s1 = "pushTarget s (Some w)"
  let ?s2 = "exec_events env ?s1 evs"
  have ok: "stack_ok ?s1" by (simp add: stack_ok_def stackTop_def)
  have tg: "target ?s1 \<noteq> Some x" using 5(2) by simp
  note IH = 5(1)[OF refl ok tg 5(3)]
  have tg2: "target ?s2 \<noteq> Some x" "targetStack ?s2 = targetStack s @ [Some w]"
    using stack_preserved(2)[OF ok, of env evs] 5(2) by simp_all
  show ?case
    using IH tg2 5(2)
    by (auto simp add: Let_def cleanupDeps_other traverse_other stackTop_def
             split: outcome.splits prod.splits sum.splits dest!: handleErrorD)
qed


subsection \<open>Flags\<close>

lemma addDep_flags [simp]:
  "user (watchers (addDep s w d) x) = user (watchers s x)"
  "deep (watchers (addDep s w d) x) = deep (watchers s x)"
  by (simp_all add: addDep_def addSub_def Let_def)

lemma depend_flags [simp]:
  "user (watchers (depend s d) x) = user (watchers s x)"
  "deep (watchers (depend s d) x) = deep (watchers s x)"
  by (simp_all add: depend_def split: option.splits)

lemma foldl_depend_flags [simp]:
  "user (watchers (foldl depend s ds) x) = user (watchers s x)"
  "deep (watchers (foldl depend s ds) x) = deep (watchers s x)"
  by (induction ds arbitrary: s) simp_all

lemma traverse_flags [simp]:
  "user (watchers (traverse env s v) x) = user (watchers s x)"
  "deep (watchers (traverse env s v) x) = deep (watchers s x)"
  by (simp_all add: traverse_def split: jsval.splits)

lemma cleanupDeps_flags [simp]:
  "user (watchers (cleanupDeps s w) x) = user (watchers s x)"
  "deep (watchers (cleanupDeps s w) x) = deep (watchers s x)"
  by (simp_all add: cleanupDeps_def Let_def cleanup_fold_stack)

lemma flags_preserved:
  "user (watchers (exec_event env s e) x) = user (watchers s x) \<and>
   deep (watchers (exec_event env s e) x) = deep (watchers s x)"
  "user (watchers (exec_events env s es) x) = user (watchers s x) \<and>
   deep (watchers (exec_events env s es) x) = deep (watchers s x)"
  "user (watchers (fst (get env s w evs out)) x) = user (watchers s x) \<and>
   deep (watchers (fst (get env s w evs out)) x) = deep (watchers s x)"
proof (induction env s e and env s es and env s w evs out rule: exec_event_exec_events_get.induct)
  case (5 env s w evs out)
  show ?case
    using 5[OF refl]
    by (auto simp add: Let_def split: outcome.splits prod.splits sum.splits dest!: handleErrorD)
qed simp_all

subsection \<open>The watcher under evaluation\<close>

lemma tracking_cong:
  "watchers s' w = watchers s w \<Longrightarrow>
   (\<forall>d. count_list (subs s' d) w = count_list (subs s d) w) \<Longrightarrow>
   tracking s' w = tracking s w"
  by (simp add: tracking_def Let_def)

lemma addDep_tracking:
  assumes "tracking s w"
  shows "tracking (addDep s w d) w"
    and "newDepIds (watchers (addDep s w d) w) = insert d (newDepIds (watchers s w))"
    and "depIds (watchers (addDep s w d) w) = depIds (watchers s w)"
    and "deps (watchers (addDep s w d) w) = deps (watchers s w)"
  using assms
  by (auto simp add: tracking_def addDep_def addSub_def Let_def)

lemma events_track:
  "stack_ok s \<Longrightarrow> target s = Some w \<Longrightarrow> w \<notin> evaluated_list es \<Longrightarrow> tracking s w \<Longrightarrow>
     tracking (exec_events env s es) w \<and>
     newDepIds (watchers (exec_events env s es) w) = newDepIds (watchers s w) \<union> set (direct_reads es) \<and>
     depIds (watchers (exec_events env s es) w) = depIds (watchers s w) \<and>
     deps (watchers (exec_events env s es) w) = deps (watchers s w)"
proof (induction es arbitrary: s)
  case Nil
  then show ?case by simp
next
  case (Cons e es)
  show ?case
  proof (cases e)
    case (Depend d)
    have e: "exec_event env s e = addDep s w d" using Depend Cons.prems(2) by (simp add: depend_def)
    have ok: "stack_ok (addDep s w d)" "target (addDep s w d) = Some w"
      using Cons.prems(1,2) by (simp_all add: stack_ok_def)
    have nw: "w \<notin> evaluated_list es" using Cons.prems(3) by simp
    from Cons.IH[OF ok nw addDep_tracking(1)[OF Cons.prems(4)]]
    show ?thesis using e Depend addDep_tracking(2-4)[OF Cons.prems(4), of d] by auto
  next
    case (Get w' evs out)
    let ?s' = "fst (get env s w' evs out)"
    have ne: "w \<noteq> w'" "w \<notin> evaluated_list evs" "w \<notin> evaluated_list es"
      using Cons.prems(3) Get by auto
    have fr: "watchers ?s' w = watchers s w"
      "\<forall>d. count_list (subs ?s' d) w = count_list (subs s d) w"
      using frame(3)[OF ne(1,2), of env s out] by simp_all
    have st: "targetStack ?s' = targetStack s" "target ?s' = stackTop (targetStack s)"
      using stack_preserved(3)[of env s w' evs out] by simp_all
    have ok: "stack_ok ?s'" "target ?s' = Some w"
      using st Cons.prems(1,2) by (simp_all add: stack_ok_def)
    have tr: "tracking ?s' w" using tracking_cong[OF fr] Cons.prems(4) by simp
    from Cons.IH[OF ok ne(3) tr] show ?thesis using Get fr(1) by simp
  qed
qed

lemma foldl_depend_track:
  "target s = Some w \<Longrightarrow> tracking s w \<Longrightarrow>
     tracking (foldl depend s ds) w \<and>
     newDepIds (watchers (foldl depend s ds) w) = newDepIds (watchers s w) \<union> set ds \<and>
     depIds (watchers (foldl depend s ds) w) = depIds (watchers s w) \<and>
     deps (watchers (foldl depend s ds) w) = deps (watchers s w)"
proof (induction ds arbitrary: s)
  case Nil
  then show ?case by simp
next
  case (Cons d ds)
  have e: "depend s d = addDep s w d" using Cons.prems(1) by (simp add: depend_def)
  have tg: "target (addDep s w d) = Some w" using Cons.prems(1) by simp
  from Cons.IH[OF tg addDep_tracking(1)[OF Cons.prems(2)]]
  show ?case using e addDep_tracking(2-4)[OF Cons.prems(2), of d] by auto
qed

lemma cleanup_fold_self:
  "(\<forall>d. count_list (subs s d) w \<le> 1) \<Longrightarrow>
     count_list (subs (foldl (\<lambda>t d. if P d then removeSub t d w else t) s ds) d') w
       = (if d' \<in> set ds \<and> P d' then 0 else count_list (subs s d') w)"
proof (induction ds arbitrary: s)
  case Nil
  then show ?case by simp
next
  case (Cons d ds)
  let ?t = "if P d then removeSub s d w else s"
  have le: "\<forall>d. count_list (subs ?t d) w \<le> 1"
    using Cons.prems by (auto simp add: removeSub_def count_list_remove1 le_diff_conv)
  have c: "count_list (subs ?t d') w = (if d' = d \<and> P d then count_list (subs s d') w - 1 else count_list (subs s d') w)"
    by (auto simp add: removeSub_def count_list_remove1)
  have z: "count_list (subs s d') w - 1 = 0" using Cons.prems by (simp add: le_diff_conv)
  show ?case using Cons.IH[OF le] c z by auto
qed

lemma cleanupDeps_self:
  assumes "tracking s w" and "set (deps (watchers s w)) = depIds (watchers s w)"
  shows "depIds (watchers (cleanupDeps s w) w) = newDepIds (watchers s w)"
    and "deps (watchers (cleanupDeps s w) w) = newDeps (watchers s w)"
    and "newDeps (watchers (cleanupDeps s w) w) = []"
    and "newDepIds (watchers (cleanupDeps s w) w) = {}"
    and "count_list (subs (cleanupDeps s w) d) w = (if d \<in> newDepIds (watchers s w) then 1 else 0)"
proof -
  have le: "\<forall>d. count_list (subs s d) w \<le> 1" using assms(1) by (simp add: tracking_def Let_def)
  show "count_list (subs (cleanupDeps s w) d) w = (if d \<in> newDepIds (watchers s w) then 1 else 0)"
    using assms cleanup_fold_self[OF le, of "\<lambda>d. d \<notin> newDepIds (watchers s w)" "rev (deps (watchers s w))" d]
    by (auto simp add: cleanupDeps_def Let_def tracking_def)
qed (simp_all add: cleanupDeps_def Let_def cleanup_fold_stack)

section \<open>Proofs: evaluation of a watcher\<close>

lemma settled_tracking:
  "settled s w \<Longrightarrow> tracking (pushTarget s (Some w)) w"
  by (simp add: settled_def tracking_def Let_def)

lemma handleError_result: "snd (handleError env s e) = snd (handleError env s' e)"
  by (simp add: handleError_def Let_def)

lemma get_decompose:
  "\<exists>s3. get env s w evs out =
      (cleanupDeps (popTarget (foldl depend s3
          (touched env (deep (watchers s w)) (snd (get env s w evs out))))) w,
       case out of
         Returns v \<Rightarrow> Inr v
       | Throws e \<Rightarrow>
           if user (watchers s w) then
             (case snd (handleError env s e) of Inl x \<Rightarrow> Inl x | Inr u \<Rightarrow> Inr VUndefined)
           else Inl e)
    \<and> targetStack s3 = targetStack s @ [Some w] \<and> target s3 = Some w
    \<and> subs s3 = subs (exec_events env (pushTarget s (Some w)) evs)
    \<and> watchers s3 = watchers (exec_events env (pushTarget s (Some w)) evs)"
proof -
  let ?s1 = "pushTarget s (Some w)"
  let ?s2 = "exec_events env ?s1 evs"
  have ok: "stack_ok ?s1" by (simp add: stack_ok_def stackTop_def)
  have st: "targetStack ?s2 = targetStack s @ [Some w]" "target ?s2 = Some w"
    using stack_preserved(2)[OF ok, of env evs] by simp_all
  have fl: "user (watchers ?s2 w) = user (watchers s w)" "deep (watchers ?s2 w) = deep (watchers s w)"
    using flags_preserved(2)[of env ?s1 evs w] by simp_all
  show ?thesis
  proof (cases out)
    case (Returns v)
    show ?thesis
      apply (rule exI[of _ ?s2])
      using st fl Returns
      by (auto simp add: Let_def touched_def traverse_def split: jsval.splits)
  next
    case (Throws e)
    show ?thesis
    proof (cases "user (watchers s w)")
      case False
      show ?thesis
        apply (rule exI[of _ ?s2])
        using st fl Throws False
        by (auto simp add: Let_def touched_def traverse_def split: jsval.splits)
    next
      case True
      obtain s' r where h: "handleError env ?s2 e = (s', r)" by (cases "handleError env ?s2 e")
      have r: "snd (handleError env s e) = r" using h handleError_result[of env s e ?s2] by simp
      note hd = handleErrorD[OF h]
      show ?thesis
        apply (rule exI[of _ s'])
        using st fl Throws True h r hd
        by (auto simp add: Let_def touched_def traverse_def stackTop_def split: jsval.splits sum.splits)
    qed
  qed
qed

text \<open>
  Claim C1. Let a watcher be settled (nothing pending, subscribed once to each node of
  \<^verbatim>\<open>depIds\<close> and to no other) and let its getter not evaluate the watcher itself.
  After \<^verbatim>\<open>get()\<close> the sets \<^verbatim>\<open>deps\<close> and \<^verbatim>\<open>depIds\<close> are exactly the nodes whose
  \<^verbatim>\<open>depend()\<close> was called while the watcher was the reader (the reads of the getter
  and, for a deep watcher, those of the traversal); the watcher is subscribed once to
  each of them and to no other node, so a later \<^verbatim>\<open>notify()\<close> of a node calls its
  \<^verbatim>\<open>update()\<close> once if the node was read and not at all otherwise; and the watcher is
  settled again. For \<^verbatim>\<open>cond ? a : b\<close> this is the witness below.
\<close>

theorem get_tracks_reads:
  assumes "settled s w" and "w \<notin> evaluated_list evs"
  shows "let s' = fst (get env s w evs out);
             W' = watchers s' w;
             R = set (direct_reads evs)
                 \<union> set (touched env (deep (watchers s w)) (snd (get env s w evs out)))
         in depIds W' = R \<and> set (deps W') = R \<and> distinct (deps W') \<and>
            newDeps W' = [] \<and> newDepIds W' = {} \<and>
            (\<forall>d. count_list (subs s' d) w = (if d \<in> R then 1 else 0)) \<and>
            (\<forall>d. count_list (notify env s' d) w = (if d \<in> R then 1 else 0)) \<and>
            settled s' w"
proof -
  let ?s1 = "pushTarget s (Some w)"
  let ?s2 = "exec_events env ?s1 evs"
  let ?T = "touched env (deep (watchers s w)) (snd (get env s w evs out))"
  have ok: "stack_ok ?s1" "target ?s1 = Some w" by (simp_all add: stack_ok_def stackTop_def)
  note E = events_track[OF ok assms(2) settled_tracking[OF assms(1)], of env]
  from get_decompose[of env s w evs out] obtain s3 r where
    g0: "get env s w evs out = (cleanupDeps (popTarget (foldl depend s3 ?T)) w, r)"
    and s3: "target s3 = Some w" "subs s3 = subs ?s2" "watchers s3 = watchers ?s2"
    by blast
  have g: "fst (get env s w evs out) = cleanupDeps (popTarget (foldl depend s3 ?T)) w"
    using arg_cong[OF g0, of fst] by (simp only: fst_conv)
  have t3: "tracking s3 w" using tracking_cong[of s3 w ?s2] s3 E by simp
  note F = foldl_depend_track[OF s3(1) t3, of ?T]
  let ?s5 = "popTarget (foldl depend s3 ?T)"
  have t5: "tracking ?s5 w" using tracking_cong[of ?s5 w "foldl depend s3 ?T"] F by simp
  have d5: "set (deps (watchers ?s5 w)) = depIds (watchers ?s5 w)"
    using F E s3 assms(1) by (simp add: settled_def Let_def)
  note C = cleanupDeps_self[OF t5 d5]
  have N: "newDepIds (watchers ?s5 w) = set (direct_reads evs) \<union> set ?T"
    using F E s3 assms(1) by (simp add: settled_def Let_def)
  have D: "set (newDeps (watchers ?s5 w)) = newDepIds (watchers ?s5 w)" "distinct (newDeps (watchers ?s5 w))"
    using t5 by (simp_all add: tracking_def Let_def)
  show ?thesis
    unfolding Let_def g
    using C N D by (simp add: notify_def settled_def Let_def count_list_sort)
qed

text \<open>
  Claim C6. \<^verbatim>\<open>get()\<close> pushes the watcher, which makes it the reader, and
  runs the getter with the watcher as the reader. On every path it then runs
  \<open>traverse\<close> for a deep watcher, pops the stack, which restores the entry below,
  and reconciles the dependencies after the pop. A value returned by the getter is the
  result. When the getter throws, the exception leaves \<^verbatim>\<open>get()\<close> for a watcher that
  is not a user watcher; for a user watcher the error goes to \<open>handleError\<close>, and
  the result is \<^verbatim>\<open>undefined\<close> when \<open>handleError\<close> returns, and the exception
  \<open>handleError\<close> throws otherwise.
\<close>

theorem get_pops_and_reconciles:
  "let s1 = pushTarget s (Some w);
       s2 = exec_events env s1 evs;
       r = (case out of
              Returns v \<Rightarrow> Inr v
            | Throws e \<Rightarrow>
                if user (watchers s w) then
                  (case handleErrorBody env e of Inl x \<Rightarrow> Inl x | Inr u \<Rightarrow> Inr VUndefined)
                else Inl e);
       s4 = (if deep (watchers s w)
             then traverse env s2 (case r of Inr v \<Rightarrow> v | Inl x \<Rightarrow> VUndefined) else s2);
       s' = cleanupDeps (popTarget s4) w
   in get env s w evs out = (s', r) \<and>
      target s1 = Some w \<and> targetStack s1 = targetStack s @ [Some w] \<and>
      target s2 = Some w \<and> targetStack s2 = targetStack s @ [Some w] \<and>
      target s4 = Some w \<and> targetStack s4 = targetStack s @ [Some w] \<and>
      targetStack s' = targetStack s \<and> target s' = stackTop (targetStack s) \<and>
      (stack_ok s \<longrightarrow> target s' = target s) \<and>
      newDeps (watchers s' w) = [] \<and> newDepIds (watchers s' w) = {}"
proof -
  define s1 where "s1 = pushTarget s (Some w)"
  define s2 where "s2 = exec_events env s1 evs"
  define r where "r = (case out of
              Returns v \<Rightarrow> Inr v
            | Throws e \<Rightarrow>
                if user (watchers s w) then
                  (case handleErrorBody env e of Inl x \<Rightarrow> Inl x | Inr u \<Rightarrow> Inr VUndefined)
                else Inl e)"
  define s4 where "s4 = (if deep (watchers s w)
             then traverse env s2 (case r of Inr v \<Rightarrow> v | Inl x \<Rightarrow> VUndefined) else s2)"
  define s' where "s' = cleanupDeps (popTarget s4) w"
  have p1: "target s1 = Some w" "targetStack s1 = targetStack s @ [Some w]"
    by (simp_all add: s1_def)
  have ok: "stack_ok s1" by (simp add: s1_def stack_ok_def stackTop_def)
  have p2: "target s2 = Some w" "targetStack s2 = targetStack s @ [Some w]"
    using stack_preserved(2)[OF ok, of env evs] p1 by (simp_all add: s2_def)
  have ok2: "stack_ok s2" using p2 by (simp add: stack_ok_def stackTop_def)
  have fl: "user (watchers s2 w) = user (watchers s w)" "deep (watchers s2 w) = deep (watchers s w)"
    using flags_preserved(2)[of env s1 evs w] by (simp_all add: s2_def s1_def)
  have he: "handleError env s2 e = (s2, handleErrorBody env e)" for e
    using handleError_fst[OF ok2, of env e] handleError_snd[of env s2 e]
    by (metis prod.collapse)
  have p4: "target s4 = Some w" "targetStack s4 = targetStack s @ [Some w]"
    using p2 by (simp_all add: s4_def)
  have g: "get env s w evs out = (s', r)"
  proof (cases out)
    case (Returns v)
    then show ?thesis
      using fl by (simp add: Let_def s1_def s2_def r_def s4_def s'_def)
  next
    case (Throws e)
    show ?thesis
    proof (cases "user (watchers s w)")
      case False
      then show ?thesis
        using fl Throws by (simp add: Let_def s1_def[symmetric] s2_def[symmetric] r_def s4_def s'_def)
    next
      case True
      show ?thesis
      proof (cases "handleErrorBody env e")
        case (Inl x)
        then show ?thesis
          using fl Throws True he[of e]
          by (simp add: Let_def s1_def[symmetric] s2_def[symmetric] r_def s4_def s'_def)
      next
        case (Inr u)
        then show ?thesis
          using fl Throws True he[of e]
          by (simp add: Let_def s1_def[symmetric] s2_def[symmetric] r_def s4_def s'_def)
      qed
    qed
  qed
  have n: "newDeps (watchers s' w) = []" "newDepIds (watchers s' w) = {}"
    unfolding s'_def by (simp_all add: cleanupDeps_def Let_def cleanup_fold_stack)
  have st: "targetStack s' = targetStack s" "target s' = stackTop (targetStack s)"
    using stack_preserved(3)[of env s w evs out] g by simp_all
  have so: "stack_ok s \<longrightarrow> target s' = target s" using st by (simp add: stack_ok_def)
  show ?thesis
    unfolding Let_def s1_def[symmetric] s2_def[symmetric] r_def[symmetric] s4_def[symmetric]
      s'_def[symmetric]
    using g p1 p2 p4 st so n by (intro conjI)
qed

section \<open>Proofs: hooks\<close>

lemma evaluated_handlers_append [simp]:
  "evaluated_handlers (hs @ ls) = evaluated_handlers hs \<union> evaluated_handlers ls"
  by (induction hs) auto

lemma reads_without_reader:
  "target s = None \<Longrightarrow> evaluated_list es = {} \<Longrightarrow> exec_events env s es = s"
proof (induction es)
  case Nil
  then show ?case by simp
next
  case (Cons e es)
  then show ?case by (cases e) (simp_all add: depend_def)
qed

lemma invokeAll_stack:
  "stack_ok s \<Longrightarrow>
     targetStack (fst (invokeAll env s hs)) = targetStack s \<and>
     target (fst (invokeAll env s hs)) = target s"
proof (induction hs arbitrary: s)
  case Nil
  then show ?case by simp
next
  case (Cons h hs)
  obtain evs out where h: "h = (evs, out)" by (cases h)
  let ?s1 = "exec_events env s evs"
  have s1: "targetStack ?s1 = targetStack s" "target ?s1 = target s"
    using stack_preserved(2)[OF Cons.prems, of env evs] by simp_all
  then have ok1: "stack_ok ?s1" using Cons.prems by (simp add: stack_ok_def)
  show ?case
  proof (cases out)
    case (Returns v)
    then show ?thesis using Cons.IH[OF ok1] s1 h by simp
  next
    case (Throws e)
    obtain s2 r where he: "handleError env ?s1 e = (s2, r)" by (cases "handleError env ?s1 e")
    note hd = handleErrorD[OF he]
    have ok2: "stack_ok s2" using hd by (simp add: stack_ok_def)
    have s2: "targetStack s2 = targetStack s" "target s2 = target s"
      using hd s1 Cons.prems by (simp_all add: stack_ok_def)
    show ?thesis using Cons.IH[OF ok2] s2 h Throws he by (cases r) simp_all
  qed
qed

lemma invokeAll_frame:
  "stack_ok s \<Longrightarrow> target s \<noteq> Some x \<Longrightarrow> x \<notin> evaluated_handlers hs \<Longrightarrow>
     watchers (fst (invokeAll env s hs)) x = watchers s x \<and>
     (\<forall>d. count_list (subs (fst (invokeAll env s hs)) d) x = count_list (subs s d) x)"
proof (induction hs arbitrary: s)
  case Nil
  then show ?case by simp
next
  case (Cons h hs)
  obtain evs out where h: "h = (evs, out)" by (cases h)
  let ?s1 = "exec_events env s evs"
  have nx: "x \<notin> evaluated_list evs" "x \<notin> evaluated_handlers hs" using Cons.prems(3) h by simp_all
  have s1: "targetStack ?s1 = targetStack s" "target ?s1 = target s"
    using stack_preserved(2)[OF Cons.prems(1), of env evs] by simp_all
  then have ok1: "stack_ok ?s1" "target ?s1 \<noteq> Some x" using Cons.prems by (simp_all add: stack_ok_def)
  note f1 = frame(2)[OF Cons.prems(1,2) nx(1), of env]
  show ?case
  proof (cases out)
    case (Returns v)
    then show ?thesis using Cons.IH[OF ok1 nx(2)] f1 h by simp
  next
    case (Throws e)
    obtain s2 r where he: "handleError env ?s1 e = (s2, r)" by (cases "handleError env ?s1 e")
    note hd = handleErrorD[OF he]
    have ok2: "stack_ok s2" "target s2 \<noteq> Some x"
      using hd s1 Cons.prems by (simp_all add: stack_ok_def)
    show ?thesis using Cons.IH[OF ok2 nx(2)] f1 hd h Throws he by (cases r) simp_all
  qed
qed

lemma invokeAll_reads_only:
  "target s = None \<Longrightarrow> stack_ok s \<Longrightarrow> evaluated_handlers hs = {} \<Longrightarrow>
     subs (fst (invokeAll env s hs)) = subs s \<and> watchers (fst (invokeAll env s hs)) = watchers s"
proof (induction hs arbitrary: s)
  case Nil
  then show ?case by simp
next
  case (Cons h hs)
  obtain evs out where h: "h = (evs, out)" by (cases h)
  have ne: "evaluated_list evs = {}" "evaluated_handlers hs = {}" using Cons.prems(3) h by simp_all
  have e: "exec_events env s evs = s" using reads_without_reader[OF Cons.prems(1) ne(1)] .
  show ?case
  proof (cases out)
    case (Returns v)
    then show ?thesis using Cons.IH[OF Cons.prems(1,2) ne(2)] e h by simp
  next
    case (Throws err)
    obtain s2 r where he: "handleError env s err = (s2, r)" by (cases "handleError env s err")
    note hd = handleErrorD[OF he]
    have ok2: "target s2 = None" "stack_ok s2"
      using hd Cons.prems by (simp_all add: stack_ok_def)
    show ?thesis using Cons.IH[OF ok2 ne(2)] hd e h Throws he by (cases r) simp_all
  qed
qed

lemma production_console_logError: "production env \<Longrightarrow> hasConsole env \<Longrightarrow> logError env e = Inr ()"
  by (simp add: logError_def)

lemma production_console_globalHandleError:
  "production env \<Longrightarrow> hasConsole env \<Longrightarrow> globalHandleError env e = Inr ()"
  by (simp add: globalHandleError_def production_console_logError
           split: option.splits handler_result.splits)

lemma production_console_runErrorCaptured:
  "production env \<Longrightarrow> hasConsole env \<Longrightarrow> \<exists>b. runErrorCaptured env hs = Inr b"
  by (induction env hs rule: runErrorCaptured.induct)
     (auto simp add: production_console_globalHandleError)

lemma production_console_handled: "production env \<Longrightarrow> hasConsole env \<Longrightarrow> handled env e"
  using production_console_runErrorCaptured[of env "errorCaptured env"]
  by (auto simp add: handled_def handleErrorBody_def production_console_globalHandleError
           split: sum.splits bool.splits)

lemma thrown_append [simp]: "thrown (hs @ ls) = thrown hs @ thrown ls"
  by (induction hs rule: thrown.induct) simp_all

lemma invokeAll_returns:
  "(snd (invokeAll env s hs) = Inr ()) = (\<forall>e \<in> set (thrown hs). handled env e)"
proof (induction hs arbitrary: s)
  case Nil
  then show ?case by simp
next
  case (Cons h hs)
  obtain evs out where h: "h = (evs, out)" by (cases h)
  show ?case
  proof (cases out)
    case (Returns v)
    then show ?thesis using Cons h by simp
  next
    case (Throws e)
    obtain s2 r where he: "handleError env (exec_events env s evs) e = (s2, r)"
      by (cases "handleError env (exec_events env s evs) e")
    have r: "r = handleErrorBody env e"
      using handleError_snd[of env "exec_events env s evs" e] he by simp
    show ?thesis
    proof (cases r)
      case (Inl x)
      then show ?thesis using h Throws he r by (simp add: handled_def)
    next
      case (Inr u)
      then show ?thesis using Cons[of s2] h Throws he r by (simp add: handled_def)
    qed
  qed
qed

text \<open>
  Claim C10. \<open>callHook\<close> pushes the entry for \<^emph>\<open>no reader\<close> before the
  handlers run, so on every path every watcher that the handlers do not evaluate
  themselves keeps its record and its subscriptions: the reads of the handlers
  register nothing with the reader that was current before the hook, and handlers
  that only read leave all subscriptions and all watchers unchanged. \<open>callHook\<close>
  returns exactly when \<open>handleError\<close> returns for every error a handler or a
  listener throws, which it always does in a production build with a console to log
  to. When \<open>callHook\<close> returns, the stack and the reader are what they were before
  the hook. When an exception of \<open>handleError\<close> leaves \<open>callHook\<close>, the call of
  \<^verbatim>\<open>popTarget()\<close> is not reached and the entry stays on the stack.
\<close>

theorem callHook_runs_without_reader:
  "(let s' = fst (callHook env s hs ls) in
      (\<forall>x. x \<notin> evaluated_handlers (hs @ ls) \<longrightarrow>
           watchers s' x = watchers s x \<and>
           (\<forall>d. count_list (subs s' d) x = count_list (subs s d) x)) \<and>
      (evaluated_handlers (hs @ ls) = {} \<longrightarrow> subs s' = subs s \<and> watchers s' = watchers s) \<and>
      (snd (callHook env s hs ls) = Inr () \<longrightarrow>
         targetStack s' = targetStack s \<and> target s' = stackTop (targetStack s) \<and>
         (stack_ok s \<longrightarrow> target s' = target s)) \<and>
      (snd (callHook env s hs ls) \<noteq> Inr () \<longrightarrow>
         targetStack s' = targetStack s @ [None] \<and> target s' = None)) \<and>
   ((snd (callHook env s hs ls) = Inr ()) = (\<forall>e \<in> set (thrown (hs @ ls)). handled env e)) \<and>
   (production env \<and> hasConsole env \<longrightarrow> snd (callHook env s hs ls) = Inr ())"
proof -
  let ?s1 = "pushTarget s None"
  obtain s2 r2 where i2: "invokeAll env ?s1 hs = (s2, r2)" by (cases "invokeAll env ?s1 hs")
  obtain s3 r3 where i3: "invokeAll env s2 ls = (s3, r3)" by (cases "invokeAll env s2 ls")
  have ok1: "stack_ok ?s1" "target ?s1 = None" by (simp_all add: stack_ok_def stackTop_def)
  have st2: "targetStack s2 = targetStack s @ [None]" "target s2 = None"
    using invokeAll_stack[OF ok1(1), of env hs] i2 by simp_all
  then have ok2: "stack_ok s2" by (simp add: stack_ok_def stackTop_def)
  have st3: "targetStack s3 = targetStack s @ [None]" "target s3 = None"
    using invokeAll_stack[OF ok2, of env ls] i3 st2 by simp_all
  have r2: "(r2 = Inr ()) = (\<forall>e \<in> set (thrown hs). handled env e)"
    using invokeAll_returns[of env ?s1 hs] i2 by simp
  have r3: "(r3 = Inr ()) = (\<forall>e \<in> set (thrown ls). handled env e)"
    using invokeAll_returns[of env s2 ls] i3 by simp
  have A: "(snd (callHook env s hs ls) = Inr ()) = (r2 = Inr () \<and> r3 = Inr ())"
    using i2 i3 by (auto simp add: callHook_def Let_def split: sum.splits)
  have B: "snd (callHook env s hs ls) = Inr () \<Longrightarrow> fst (callHook env s hs ls) = popTarget s3"
    using i2 i3 by (auto simp add: callHook_def Let_def split: sum.splits)
  have C: "snd (callHook env s hs ls) \<noteq> Inr () \<Longrightarrow>
             fst (callHook env s hs ls) = s2 \<and> r2 \<noteq> Inr () \<or> fst (callHook env s hs ls) = s3"
    using i2 i3 by (auto simp add: callHook_def Let_def split: sum.splits)
  have F2: "x \<notin> evaluated_handlers hs \<Longrightarrow>
             watchers s2 x = watchers s x \<and> (\<forall>d. count_list (subs s2 d) x = count_list (subs s d) x)" for x
    using invokeAll_frame[OF ok1(1), of x hs env] i2 by simp
  have F3: "x \<notin> evaluated_handlers (hs @ ls) \<Longrightarrow>
             watchers s3 x = watchers s x \<and> (\<forall>d. count_list (subs s3 d) x = count_list (subs s d) x)" for x
  proof -
    assume nx: "x \<notin> evaluated_handlers (hs @ ls)"
    have t1: "target s2 \<noteq> Some x" using st2 by simp
    have "x \<notin> evaluated_handlers hs" "x \<notin> evaluated_handlers ls" using nx by simp_all
    then show ?thesis
      using F2[of x] invokeAll_frame[OF ok2 t1, of ls env] i3 by simp
  qed
  have R2: "evaluated_handlers hs = {} \<Longrightarrow> subs s2 = subs s \<and> watchers s2 = watchers s"
    using invokeAll_reads_only[OF ok1(2,1), of hs env] i2 by simp
  have R3: "evaluated_handlers (hs @ ls) = {} \<Longrightarrow> subs s3 = subs s \<and> watchers s3 = watchers s"
    using R2 invokeAll_reads_only[OF st2(2) ok2, of ls env] i3 by simp
  have D: "fst (callHook env s hs ls) = popTarget s3 \<or> fst (callHook env s hs ls) = s2
           \<or> fst (callHook env s hs ls) = s3"
    using B C by blast
  have P1: "\<forall>x. x \<notin> evaluated_handlers (hs @ ls) \<longrightarrow>
           watchers (fst (callHook env s hs ls)) x = watchers s x \<and>
           (\<forall>d. count_list (subs (fst (callHook env s hs ls)) d) x = count_list (subs s d) x)"
  proof (intro allI impI)
    fix x assume nx: "x \<notin> evaluated_handlers (hs @ ls)"
    then have "x \<notin> evaluated_handlers hs" by simp
    then show "watchers (fst (callHook env s hs ls)) x = watchers s x \<and>
           (\<forall>d. count_list (subs (fst (callHook env s hs ls)) d) x = count_list (subs s d) x)"
      using D F2[of x] F3[OF nx] by auto
  qed
  have P2: "evaluated_handlers (hs @ ls) = {} \<longrightarrow>
           subs (fst (callHook env s hs ls)) = subs s \<and> watchers (fst (callHook env s hs ls)) = watchers s"
    using D R2 R3 by auto
  have P3: "snd (callHook env s hs ls) = Inr () \<longrightarrow>
         targetStack (fst (callHook env s hs ls)) = targetStack s \<and>
         target (fst (callHook env s hs ls)) = stackTop (targetStack s) \<and>
         (stack_ok s \<longrightarrow> target (fst (callHook env s hs ls)) = target s)"
    using B st3 by (auto simp add: stack_ok_def)
  have P4: "snd (callHook env s hs ls) \<noteq> Inr () \<longrightarrow>
         targetStack (fst (callHook env s hs ls)) = targetStack s @ [None] \<and>
         target (fst (callHook env s hs ls)) = None"
    using C st2 st3 by auto
  have P5: "(snd (callHook env s hs ls) = Inr ()) = (\<forall>e \<in> set (thrown (hs @ ls)). handled env e)"
    using A r2 r3 by auto
  have P6: "production env \<and> hasConsole env \<longrightarrow> snd (callHook env s hs ls) = Inr ()"
    using P5 production_console_handled[of env] by simp
  show ?thesis unfolding Let_def using P1 P2 P3 P4 P5 P6 by (intro conjI)
qed

section \<open>Proofs: the scheduler and the order of notification\<close>

lemma scan_back_bounds:
  "int idx \<le> i \<Longrightarrow> int idx \<le> scan_back q idx i w \<and> scan_back q idx i w \<le> i"
proof (induction q idx i w rule: scan_back.induct)
  case (1 q idx i w)
  show ?case
  proof (cases "i > int idx \<and> q ! nat i > w")
    case True
    then have "int idx \<le> i - 1" by simp
    moreover have "scan_back q idx i w = scan_back q idx (i - 1) w"
      using True by (subst scan_back.simps) simp
    ultimately show ?thesis using 1(1)[OF True] by simp
  next
    case False
    have "scan_back q idx i w = i" using False by (subst scan_back.simps) auto
    then show ?thesis using 1(2) by simp
  qed
qed

lemma count_list_take_le: "count_list (take m xs) x \<le> count_list xs x"
proof -
  have "count_list xs x = count_list (take m xs) x + count_list (drop m xs) x"
    by (metis append_take_drop_id count_list_append)
  then show ?thesis by simp
qed

lemma count_list_take_drop:
  "count_list (take n q) x + count_list (drop n q) x = count_list q x"
  by (metis append_take_drop_id count_list_append)

lemma distinct_count_list_one:
  "distinct xs \<Longrightarrow> count_list xs x = (if x \<in> set xs then 1 else 0)"
  by (induction xs) auto

lemma queueWatcher_refuses: "w \<in> has s \<Longrightarrow> queueWatcher env s w = s"
  by (simp add: queueWatcher_def)

lemma queueWatcher_has: "w \<in> has (queueWatcher env s w)"
  by (simp add: queueWatcher_def Let_def)

text \<open>Outside a flush.\<close>

lemma queueWatcher_pending:
  "pending_ok s \<Longrightarrow>
     pending_ok (queueWatcher env s v) \<and> set (queue (queueWatcher env s v)) = insert v (set (queue s))"
  by (auto simp add: pending_ok_def queueWatcher_def Let_def)

lemma foldl_queueWatcher_pending:
  "pending_ok s \<Longrightarrow>
     pending_ok (foldl (queueWatcher env) s ws) \<and>
     set (queue (foldl (queueWatcher env) s ws)) = set (queue s) \<union> set ws"
proof (induction ws arbitrary: s)
  case Nil
  then show ?case by simp
next
  case (Cons v ws)
  from queueWatcher_pending[OF Cons.prems, of env v] Cons.IH[of "queueWatcher env s v"]
  show ?case by auto
qed

text \<open>During a flush.\<close>

lemma queueWatcher_flushing:
  assumes "flushing s" and "index s < length (queue s)" and "v \<noteq> w"
  shows "flushing (queueWatcher env s v)"
    and "index (queueWatcher env s v) = index s"
    and "length (queue s) \<le> length (queue (queueWatcher env s v))"
    and "take (Suc (index s)) (queue (queueWatcher env s v)) = take (Suc (index s)) (queue s)"
    and "count_list (queue (queueWatcher env s v)) w = count_list (queue s) w"
proof -
  let ?i = "scan_back (queue s) (index s) (int (length (queue s)) - 1) v"
  have b: "int (index s) \<le> ?i \<and> ?i \<le> int (length (queue s)) - 1"
    using scan_back_bounds[of "index s" "int (length (queue s)) - 1" "queue s" v] assms(2) by simp
  then have n: "Suc (index s) \<le> nat (?i + 1)" "nat (?i + 1) \<le> length (queue s)" by linarith+
  show "flushing (queueWatcher env s v)" "index (queueWatcher env s v) = index s"
    using assms(1) by (simp_all add: queueWatcher_def Let_def)
  show "length (queue s) \<le> length (queue (queueWatcher env s v))"
    using assms(1) n by (simp add: queueWatcher_def Let_def)
  show "take (Suc (index s)) (queue (queueWatcher env s v)) = take (Suc (index s)) (queue s)"
    using assms(1) n by (simp add: queueWatcher_def Let_def min_absorb2)
  show "count_list (queue (queueWatcher env s v)) w = count_list (queue s) w"
    using assms(1,3) by (simp add: queueWatcher_def Let_def count_list_take_drop)
qed

lemma foldl_queueWatcher_flushing:
  "flushing s \<Longrightarrow> index s < length (queue s) \<Longrightarrow> w \<notin> set vs \<Longrightarrow>
     flushing (foldl (queueWatcher env) s vs) \<and>
     index (foldl (queueWatcher env) s vs) = index s \<and>
     length (queue s) \<le> length (queue (foldl (queueWatcher env) s vs)) \<and>
     take (Suc (index s)) (queue (foldl (queueWatcher env) s vs)) = take (Suc (index s)) (queue s) \<and>
     count_list (queue (foldl (queueWatcher env) s vs)) w = count_list (queue s) w"
proof (induction vs arbitrary: s)
  case Nil
  then show ?case by simp
next
  case (Cons v vs)
  have vw: "v \<noteq> w" "w \<notin> set vs" using Cons.prems(3) by auto
  note q = queueWatcher_flushing[OF Cons.prems(1,2) vw(1), of env]
  have i: "index (queueWatcher env s v) < length (queue (queueWatcher env s v))"
    using q(2,3) Cons.prems(2) by simp
  from Cons.IH[OF q(1) i vw(2)] q show ?case by simp
qed

lemma queueWatcher_waiting:
  "waiting s \<Longrightarrow> waiting (queueWatcher env s v) \<and> scheduled (queueWatcher env s v) = scheduled s"
  by (simp add: queueWatcher_def Let_def)

lemma foldl_queueWatcher_waiting:
  "waiting s \<Longrightarrow>
     waiting (foldl (queueWatcher env) s vs) \<and> scheduled (foldl (queueWatcher env) s vs) = scheduled s"
proof (induction vs arbitrary: s)
  case Nil
  then show ?case by simp
next
  case (Cons v vs)
  from queueWatcher_waiting[OF Cons.prems, of env v] Cons.IH[of "queueWatcher env s v"]
  show ?case by simp
qed

lemma idle_first_request:
  assumes "idle s0" and "ws \<noteq> []"
  shows "scheduled (foldl (queueWatcher env) s0 ws) =
           scheduled s0 @ [if \<not> production env \<and> \<not> async env then FlushNow else NextTick]"
proof -
  obtain v vs where ws: "ws = v # vs" using assms(2) by (cases ws) auto
  have a: "waiting (queueWatcher env s0 v)"
    "scheduled (queueWatcher env s0 v) =
       scheduled s0 @ [if \<not> production env \<and> \<not> async env then FlushNow else NextTick]"
    using assms(1) by (simp_all add: idle_def queueWatcher_def Let_def)
  show ?thesis using foldl_queueWatcher_waiting[OF a(1), of env vs] a(2) ws by simp
qed

lemma queueWatcher_length:
  "length (queue (queueWatcher env s v)) \<le> Suc (length (queue s))"
  by (auto simp add: queueWatcher_def Let_def min_def)

lemma foldl_queueWatcher_length:
  "length (queue (foldl (queueWatcher env) s vs)) \<le> length (queue s) + length vs"
proof (induction vs arbitrary: s)
  case Nil
  then show ?case by simp
next
  case (Cons v vs)
  from Cons[of "queueWatcher env s v"] queueWatcher_length[of env s v] show ?case by simp
qed

lemma quiet_loop:
  assumes "\<forall>u v. snd (bf u v) = [] \<and> snd (rn u v) = []"
  shows "index s \<le> length (queue s) \<Longrightarrow> length (queue s) - index s \<le> fuel \<Longrightarrow>
         \<exists>s' u'. flushLoop fuel env bf rn s u tr
                   = Some (s', u', tr @ drop (index s) (queue s), False) \<and> queue s' = queue s"
proof (induction fuel arbitrary: s u tr)
  case 0
  then show ?case by simp
next
  case (Suc fuel)
  show ?case
  proof (cases "index s < length (queue s)")
    case False
    then show ?thesis using Suc.prems by simp
  next
    case True
    define w0 where "w0 = queue s ! index s"
    obtain u1 where bf: "bf u w0 = (u1, [])" using assms by (cases "bf u w0") (metis snd_conv)
    obtain u2 where rn: "rn u1 w0 = (u2, [])" using assms by (cases "rn u1 w0") (metis snd_conv)
    define s5 where "s5 = s\<lparr>has := has s - {w0}, index := index s + 1\<rparr>"
    have step: "flushLoop (Suc fuel) env bf rn s u tr = flushLoop fuel env bf rn s5 u2 (tr @ [w0])"
      using True bf rn by (simp add: Let_def w0_def s5_def)
    have a: "index s5 \<le> length (queue s5)" "length (queue s5) - index s5 \<le> fuel"
      using True Suc.prems(2) by (simp_all add: s5_def)
    from Suc.IH[OF a, of u2 "tr @ [w0]"] obtain s' u' where
      r: "flushLoop fuel env bf rn s5 u2 (tr @ [w0])
            = Some (s', u', (tr @ [w0]) @ drop (index s5) (queue s5), False)" "queue s' = queue s5"
      by blast
    have "(tr @ [w0]) @ drop (index s5) (queue s5) = tr @ drop (index s) (queue s)"
      using True by (simp add: s5_def w0_def Cons_nth_drop_Suc)
    then show ?thesis using step r by (simp add: s5_def)
  qed
qed

text \<open>
  Claim C8. The test that makes \<open>queueWatcher\<close> flush at once instead of on the
  next tick and the test that makes \<^verbatim>\<open>notify()\<close> sort are the same: a build that is
  not a production build with \<^verbatim>\<open>config.async\<close> false. Under it nothing is batched,
  and \<^verbatim>\<open>notify()\<close> calls \<^verbatim>\<open>update()\<close> on the subscribers of the snapshot in
  ascending order of their ids. Otherwise the flush is put off to the next tick,
  \<^verbatim>\<open>notify()\<close> calls the subscribers in the order of the subscriber list, and the
  order is left to the scheduler: a flush in which nothing is queued anew runs the
  queued watchers in ascending order of their ids.
\<close>

theorem notify_order:
  "(\<not> production env \<and> \<not> async env \<longrightarrow>
      sorted (notify env s d) \<and>
      (\<forall>w. count_list (notify env s d) w = count_list (subs s d) w) \<and>
      (\<forall>sch w. w \<notin> has sch \<and> \<not> waiting sch \<longrightarrow>
         scheduled (queueWatcher env sch w) = scheduled sch @ [FlushNow])) \<and>
   (production env \<or> async env \<longrightarrow>
      notify env s d = subs s d \<and>
      (\<forall>sch w. w \<notin> has sch \<and> \<not> waiting sch \<longrightarrow>
         scheduled (queueWatcher env sch w) = scheduled sch @ [NextTick]) \<and>
      (\<forall>sch fuel u.
         (\<forall>u v. snd (bf u v) = [] \<and> snd (rn u v) = []) \<and> length (queue sch) \<le> fuel \<longrightarrow>
         (\<exists>s' u'. flushSchedulerQueue fuel env bf rn sch u
                    = Some (s', u', sort (queue sch), False, sort (queue sch)))))"
proof -
  have F: "\<exists>s' u'. flushSchedulerQueue fuel env bf rn sch u
                    = Some (s', u', sort (queue sch), False, sort (queue sch))"
    if q: "\<forall>u v. snd (bf u v) = [] \<and> snd (rn u v) = []" and f: "length (queue sch) \<le> fuel"
    for sch :: sched and fuel u
  proof -
    let ?s1 = "sch\<lparr>flushing := True, queue := sort (queue sch), index := 0\<rparr>"
    have a: "index ?s1 \<le> length (queue ?s1)" "length (queue ?s1) - index ?s1 \<le> fuel"
      using f by simp_all
    from quiet_loop[OF q a, of env u "[]"] obtain s1 u' where
      "flushLoop fuel env bf rn ?s1 u [] = Some (s1, u', sort (queue sch), False)"
      "queue s1 = sort (queue sch)"
      by auto
    then show ?thesis by (simp add: flushSchedulerQueue_def Let_def)
  qed
  have A: "\<not> production env \<and> \<not> async env \<longrightarrow>
      (\<forall>sch w. w \<notin> has sch \<and> \<not> waiting sch \<longrightarrow>
         scheduled (queueWatcher env sch w) = scheduled sch @ [FlushNow])"
    by (simp add: queueWatcher_def Let_def)
  have B: "production env \<or> async env \<longrightarrow>
      (\<forall>sch w. w \<notin> has sch \<and> \<not> waiting sch \<longrightarrow>
         scheduled (queueWatcher env sch w) = scheduled sch @ [NextTick])"
    by (auto simp add: queueWatcher_def Let_def)
  have N1: "\<not> production env \<and> \<not> async env \<longrightarrow>
      sorted (notify env s d) \<and> (\<forall>w. count_list (notify env s d) w = count_list (subs s d) w)"
    by (simp add: notify_def Let_def count_list_sort)
  have N2: "production env \<or> async env \<longrightarrow> notify env s d = subs s d"
    by (auto simp add: notify_def Let_def)
  show ?thesis using A B N1 N2 F by blast
qed

lemma flushLoop_flushPrefix:
  "flushLoop n env bf rn s u tr =
     (case flushPrefix n env bf rn s u tr of
        (s', u', tr', Running) \<Rightarrow> None
      | (s', u', tr', Finished) \<Rightarrow> Some (s', u', tr', False)
      | (s', u', tr', Broke) \<Rightarrow> Some (s', u', tr', True))"
proof (induction n arbitrary: s u tr)
  case 0
  then show ?case by simp
next
  case (Suc n)
  show ?case
    by (simp add: Let_def Suc split: prod.splits)
qed

lemma queueWatcher_entry:
  "count_list (queue (queueWatcher env s v)) x =
     count_list (queue s) x + (if v \<notin> has s \<and> x = v then 1 else 0)"
  by (simp add: queueWatcher_def Let_def count_list_take_drop)

lemma drop_take_drop: "b \<le> n \<Longrightarrow> n \<le> length q \<Longrightarrow> drop b q = drop b (take n q) @ drop n q"
proof -
  assume a: "b \<le> n" "n \<le> length q"
  have "drop b q = drop b (take n q @ drop n q)" by simp
  also have "\<dots> = drop b (take n q) @ drop (b - length (take n q)) (drop n q)" by (rule drop_append)
  also have "\<dots> = drop b (take n q) @ drop n q" using a by (simp add: min_absorb2)
  finally show ?thesis .
qed

lemma queueWatcher_waiting_part:
  assumes "flushing s" and "b \<le> Suc (index s)" and "index s < length (queue s)"
    and "has s = set (drop b (queue s))" and "distinct (drop b (queue s))"
  shows "flushing (queueWatcher env s v)"
    and "index (queueWatcher env s v) = index s"
    and "length (queue s) \<le> length (queue (queueWatcher env s v))"
    and "take (Suc (index s)) (queue (queueWatcher env s v)) = take (Suc (index s)) (queue s)"
    and "has (queueWatcher env s v) = set (drop b (queue (queueWatcher env s v)))"
    and "distinct (drop b (queue (queueWatcher env s v)))"
proof -
  let ?i = "scan_back (queue s) (index s) (int (length (queue s)) - 1) v"
  let ?n = "nat (?i + 1)"
  have bd: "int (index s) \<le> ?i \<and> ?i \<le> int (length (queue s)) - 1"
    using scan_back_bounds[of "index s" "int (length (queue s)) - 1" "queue s" v] assms(3) by simp
  then have n: "Suc (index s) \<le> ?n" "?n \<le> length (queue s)" by linarith+
  have bn: "b \<le> ?n" using n assms(2) by simp
  show "flushing (queueWatcher env s v)" "index (queueWatcher env s v) = index s"
    using assms(1) by (simp_all add: queueWatcher_def Let_def)
  show "length (queue s) \<le> length (queue (queueWatcher env s v))"
    using assms(1) n by (simp add: queueWatcher_def Let_def)
  show "take (Suc (index s)) (queue (queueWatcher env s v)) = take (Suc (index s)) (queue s)"
    using assms(1) n by (simp add: queueWatcher_def Let_def min_absorb2)
  have sp: "drop b (queue s) = drop b (take ?n (queue s)) @ drop ?n (queue s)"
    using drop_take_drop[OF bn n(2)] .
  have q': "v \<notin> has s \<Longrightarrow>
     drop b (queue (queueWatcher env s v)) = drop b (take ?n (queue s)) @ v # drop ?n (queue s)"
    using assms(1) bn n(2) by (simp add: queueWatcher_def Let_def min_absorb2)
  show "has (queueWatcher env s v) = set (drop b (queue (queueWatcher env s v)))"
  proof (cases "v \<in> has s")
    case True
    then show ?thesis using assms(4) by (simp add: queueWatcher_refuses)
  next
    case False
    have "has (queueWatcher env s v) = insert v (has s)"
      using False by (simp add: queueWatcher_def Let_def)
    moreover have "set (drop b (queue (queueWatcher env s v))) = insert v (set (drop b (queue s)))"
      unfolding q'[OF False] by (subst sp) auto
    ultimately show ?thesis using assms(4) by simp
  qed
  show "distinct (drop b (queue (queueWatcher env s v)))"
  proof (cases "v \<in> has s")
    case True
    then show ?thesis using assms(5) by (simp add: queueWatcher_refuses)
  next
    case False
    have nv: "v \<notin> set (drop b (take ?n (queue s)))" "v \<notin> set (drop ?n (queue s))"
      using False assms(4) sp by auto
    have "distinct (drop b (take ?n (queue s)) @ drop ?n (queue s))" using assms(5) sp by simp
    then show ?thesis unfolding q'[OF False] using nv by auto
  qed
qed

lemma foldl_queueWatcher_waiting_part:
  "flushing s \<Longrightarrow> b \<le> Suc (index s) \<Longrightarrow> index s < length (queue s) \<Longrightarrow>
   has s = set (drop b (queue s)) \<Longrightarrow> distinct (drop b (queue s)) \<Longrightarrow>
     flushing (foldl (queueWatcher env) s vs) \<and>
     index (foldl (queueWatcher env) s vs) = index s \<and>
     length (queue s) \<le> length (queue (foldl (queueWatcher env) s vs)) \<and>
     take (Suc (index s)) (queue (foldl (queueWatcher env) s vs)) = take (Suc (index s)) (queue s) \<and>
     has (foldl (queueWatcher env) s vs) = set (drop b (queue (foldl (queueWatcher env) s vs))) \<and>
     distinct (drop b (queue (foldl (queueWatcher env) s vs)))"
proof (induction vs arbitrary: s)
  case Nil
  then show ?case by simp
next
  case (Cons v vs)
  note q = queueWatcher_waiting_part[OF Cons.prems, of env v]
  have i: "index (queueWatcher env s v) < length (queue (queueWatcher env s v))"
    using q(2,3) Cons.prems(3) by simp
  have b: "b \<le> Suc (index (queueWatcher env s v))" using q(2) Cons.prems(2) by simp
  from Cons.IH[OF q(1) b i q(5,6)] q show ?case by simp
qed

lemma flushPrefix_inv:
  "flushing s \<Longrightarrow> index s \<le> length (queue s) \<Longrightarrow> tr = take (index s) (queue s) \<Longrightarrow>
   has s = set (drop (index s) (queue s)) \<Longrightarrow> distinct (drop (index s) (queue s)) \<Longrightarrow>
   flushPrefix n env bf rn s u tr = (s', u', tr', st) \<Longrightarrow>
     tr' = take (length tr') (queue s') \<and>
     has s' = set (drop (length tr') (queue s')) \<and>
     distinct (drop (length tr') (queue s')) \<and>
     (st = Running \<longrightarrow> length tr' = length tr + n) \<and>
     (st = Finished \<longrightarrow> tr' = queue s')"
proof (induction n arbitrary: s u tr)
  case 0
  have l: "length tr = index s" using 0(2,3) by simp
  from 0 l show ?case by (auto split: if_splits)
next
  case (Suc n)
  have l: "length tr = index s" using Suc.prems(2,3) by simp
  show ?case
  proof (cases "index s < length (queue s)")
    case False
    then show ?thesis using Suc.prems l by auto
  next
    case True
    define w0 where "w0 = queue s ! index s"
    obtain u1 t1 where bf: "bf u w0 = (u1, t1)" by (cases "bf u w0")
    obtain u2 t2 where rn: "rn u1 w0 = (u2, t2)" by (cases "rn u1 w0")
    define s1 where "s1 = foldl (queueWatcher env) s t1"
    define s2 where "s2 = s1\<lparr>has := has s1 - {w0}\<rparr>"
    define s3 where "s3 = foldl (queueWatcher env) s2 t2"
    have b0: "index s \<le> Suc (index s)" by simp
    note f1 = foldl_queueWatcher_waiting_part[OF Suc.prems(1) b0 True Suc.prems(4,5), of env t1,
                folded s1_def]
    have i1: "index s < length (queue s1)" using f1 True by simp
    have h1: "queue s1 ! index s = w0"
    proof -
      have "take (Suc (index s)) (queue s1) ! index s = take (Suc (index s)) (queue s) ! index s"
        using f1 by simp
      then show ?thesis by (simp add: w0_def)
    qed
    have d1: "drop (index s) (queue s1) = w0 # drop (Suc (index s)) (queue s1)"
      using i1 h1 by (simp add: Cons_nth_drop_Suc[symmetric])
    have dist1: "distinct (w0 # drop (Suc (index s)) (queue s1))" using f1 d1 by simp
    have has1: "has s1 = insert w0 (set (drop (Suc (index s)) (queue s1)))" using f1 d1 by simp
    have p2: "flushing s2" "index s2 = index s" "index s2 < length (queue s2)" "queue s2 = queue s1"
      using f1 i1 by (simp_all add: s2_def)
    have has2: "has s2 = set (drop (Suc (index s2)) (queue s2))"
      using has1 dist1 by (auto simp add: s2_def f1)
    have dist2: "distinct (drop (Suc (index s2)) (queue s2))"
      using dist1 by (simp add: s2_def f1)
    have b2: "Suc (index s2) \<le> Suc (index s2)" by simp
    note f3 = foldl_queueWatcher_waiting_part[OF p2(1) b2 p2(3) has2 dist2, of env t2,
                folded s3_def]
    have fl: "flushing s3" using f3 by simp
    have ix: "index s3 = index s" using f3 p2 by simp
    have len: "index s < length (queue s3)" using f3 p2 by simp
    have pre: "take (Suc (index s)) (queue s3) = take (Suc (index s)) (queue s)"
      using f1 f3 p2 by simp
    have tr1: "tr @ [w0] = take (Suc (index s)) (queue s3)"
      using pre Suc.prems(3) True by (simp add: take_Suc_conv_app_nth w0_def)
    have has3: "has s3 = set (drop (Suc (index s)) (queue s3))" using f3 p2 by simp
    have dist3: "distinct (drop (Suc (index s)) (queue s3))" using f3 p2 by simp
    have step: "flushPrefix (Suc n) env bf rn s u tr =
       (if \<not> production env \<and> w0 \<in> has s3 then
             let s4 = s3\<lparr>circular := (circular s3)(w0 := circular s3 w0 + 1)\<rparr>
             in if circular s4 w0 > MAX_UPDATE_COUNT then (s4, u2, tr @ [w0], Broke)
                else flushPrefix n env bf rn (s4\<lparr>index := index s4 + 1\<rparr>) u2 (tr @ [w0])
           else flushPrefix n env bf rn (s3\<lparr>index := index s3 + 1\<rparr>) u2 (tr @ [w0]))"
      using True bf rn by (simp add: Let_def w0_def s1_def s2_def s3_def)
    have ltr: "length (tr @ [w0]) = Suc (index s)" using l by simp
    show ?thesis
    proof (cases "\<not> production env \<and> w0 \<in> has s3")
      case c1: True
      define s4 where "s4 = s3\<lparr>circular := (circular s3)(w0 := circular s3 w0 + 1)\<rparr>"
      have q4: "queue s4 = queue s3" "index s4 = index s" "flushing s4" "has s4 = has s3"
        using fl ix by (simp_all add: s4_def)
      show ?thesis
      proof (cases "circular s4 w0 > MAX_UPDATE_COUNT")
        case c2: True
        have "flushPrefix (Suc n) env bf rn s u tr = (s4, u2, tr @ [w0], Broke)"
          using step c1 c2 by (simp add: Let_def s4_def)
        then have e: "s' = s4" "tr' = tr @ [w0]" "st = Broke" using Suc.prems(6) by simp_all
        have "length tr' = Suc (index s)" using e(2) ltr by simp
        then show ?thesis using e tr1 q4 has3 dist3 by simp
      next
        case c2: False
        define s5 where "s5 = s4\<lparr>index := index s4 + 1\<rparr>"
        have "flushPrefix (Suc n) env bf rn s u tr = flushPrefix n env bf rn s5 u2 (tr @ [w0])"
          using step c1 c2 by (simp add: Let_def s4_def s5_def)
        then have r: "flushPrefix n env bf rn s5 u2 (tr @ [w0]) = (s', u', tr', st)"
          using Suc.prems(6) by simp
        have a: "flushing s5" "index s5 \<le> length (queue s5)" "tr @ [w0] = take (index s5) (queue s5)"
          "has s5 = set (drop (index s5) (queue s5))" "distinct (drop (index s5) (queue s5))"
          using q4 len tr1 has3 dist3 by (simp_all add: s5_def)
        from Suc.IH[OF a r] show ?thesis by simp
      qed
    next
      case c1: False
      define s5 where "s5 = s3\<lparr>index := index s3 + 1\<rparr>"
      have "flushPrefix (Suc n) env bf rn s u tr = flushPrefix n env bf rn s5 u2 (tr @ [w0])"
        using step c1 by (simp add: s5_def)
      then have r: "flushPrefix n env bf rn s5 u2 (tr @ [w0]) = (s', u', tr', st)"
        using Suc.prems(6) by simp
      have a: "flushing s5" "index s5 \<le> length (queue s5)" "tr @ [w0] = take (index s5) (queue s5)"
        "has s5 = set (drop (index s5) (queue s5))" "distinct (drop (index s5) (queue s5))"
        using fl ix len tr1 has3 dist3 by (simp_all add: s5_def)
      from Suc.IH[OF a r] show ?thesis by simp
    qed
  qed
qed

lemma flushPrefix_count:
  "flushing s \<Longrightarrow> never_requeued w bf rn \<Longrightarrow>
   flushPrefix n env bf rn s u tr = (s', u', tr', st) \<Longrightarrow>
     count_list (queue s') w = count_list (queue s) w"
proof (induction n arbitrary: s u tr)
  case 0
  then show ?case by simp
next
  case (Suc n)
  show ?case
  proof (cases "index s < length (queue s)")
    case False
    then show ?thesis using Suc.prems by auto
  next
    case True
    define w0 where "w0 = queue s ! index s"
    obtain u1 t1 where bf: "bf u w0 = (u1, t1)" by (cases "bf u w0")
    obtain u2 t2 where rn: "rn u1 w0 = (u2, t2)" by (cases "rn u1 w0")
    have nt: "w \<notin> set t1" "w \<notin> set t2"
      using Suc.prems(2) bf rn unfolding never_requeued_def by (metis snd_conv)+
    define s1 where "s1 = foldl (queueWatcher env) s t1"
    define s2 where "s2 = s1\<lparr>has := has s1 - {w0}\<rparr>"
    define s3 where "s3 = foldl (queueWatcher env) s2 t2"
    note f1 = foldl_queueWatcher_flushing[OF Suc.prems(1) True nt(1), of env, folded s1_def]
    have p2: "flushing s2" "index s2 < length (queue s2)" using f1 True by (simp_all add: s2_def)
    note f3 = foldl_queueWatcher_flushing[OF p2 nt(2), of env, folded s3_def]
    have q2: "queue s2 = queue s1" "index s2 = index s1" by (simp_all add: s2_def)
    have fl: "flushing s3" using f3 by simp
    have cnt: "count_list (queue s3) w = count_list (queue s) w" using f1 f3 q2 by simp
    have step: "flushPrefix (Suc n) env bf rn s u tr =
       (if \<not> production env \<and> w0 \<in> has s3 then
             let s4 = s3\<lparr>circular := (circular s3)(w0 := circular s3 w0 + 1)\<rparr>
             in if circular s4 w0 > MAX_UPDATE_COUNT then (s4, u2, tr @ [w0], Broke)
                else flushPrefix n env bf rn (s4\<lparr>index := index s4 + 1\<rparr>) u2 (tr @ [w0])
           else flushPrefix n env bf rn (s3\<lparr>index := index s3 + 1\<rparr>) u2 (tr @ [w0]))"
      using True bf rn by (simp add: Let_def w0_def s1_def s2_def s3_def)
    show ?thesis
    proof (cases "\<not> production env \<and> w0 \<in> has s3")
      case c1: True
      define s4 where "s4 = s3\<lparr>circular := (circular s3)(w0 := circular s3 w0 + 1)\<rparr>"
      have q4: "queue s4 = queue s3" "flushing s4" using fl by (simp_all add: s4_def)
      show ?thesis
      proof (cases "circular s4 w0 > MAX_UPDATE_COUNT")
        case c2: True
        have "flushPrefix (Suc n) env bf rn s u tr = (s4, u2, tr @ [w0], Broke)"
          using step c1 c2 by (simp add: Let_def s4_def)
        then have e: "s' = s4" using Suc.prems(3) by simp
        then show ?thesis using cnt q4 by simp
      next
        case c2: False
        define s5 where "s5 = s4\<lparr>index := index s4 + 1\<rparr>"
        have "flushPrefix (Suc n) env bf rn s u tr = flushPrefix n env bf rn s5 u2 (tr @ [w0])"
          using step c1 c2 by (simp add: Let_def s4_def s5_def)
        then have r: "flushPrefix n env bf rn s5 u2 (tr @ [w0]) = (s', u', tr', st)"
          using Suc.prems(3) by simp
        have a: "flushing s5" using q4 by (simp add: s5_def)
        have "queue s5 = queue s3" using q4 by (simp add: s5_def)
        with Suc.IH[OF a Suc.prems(2) r] cnt show ?thesis by simp
      qed
    next
      case c1: False
      define s5 where "s5 = s3\<lparr>index := index s3 + 1\<rparr>"
      have "flushPrefix (Suc n) env bf rn s u tr = flushPrefix n env bf rn s5 u2 (tr @ [w0])"
        using step c1 by (simp add: s5_def)
      then have r: "flushPrefix n env bf rn s5 u2 (tr @ [w0]) = (s', u', tr', st)"
        using Suc.prems(3) by simp
      have a: "flushing s5" using fl by (simp add: s5_def)
      have "queue s5 = queue s3" by (simp add: s5_def)
      with Suc.IH[OF a Suc.prems(2) r] cnt show ?thesis by simp
    qed
  qed
qed

text \<open>
  Claim C2. \<open>queueWatcher\<close> leaves the scheduler unchanged for a watcher
  whose id is flagged pending, and otherwise gives it one more entry in the queue.
  So, with batching on, any sequence of calls made from the idle scheduler that names
  a watcher puts it into the queue once and asks for one flush on the next tick.
  At every point of that flush, whether or not the flush ever ends, the calls of
  \<^verbatim>\<open>run()\<close> made so far are the entries of the queue before the cursor, in order;
  the entries behind the cursor are pairwise different and are exactly the pending
  ids; so every watcher has as many entries as it has run, and one more while it is
  pending. Calls for a pending watcher add nothing, and a watcher first queued during
  the flush is treated like any other. When no \<^verbatim>\<open>before()\<close> or \<^verbatim>\<open>run()\<close> queues the
  watcher \<open>w\<close>, it keeps its one entry, has run at most once at every point of the
  flush, and has run exactly once when the cursor has reached the end of the queue.
  \<open>flushSchedulerQueue\<close> returns what the loop has reached when the loop has ended,
  and nothing while the loop goes on. When no \<^verbatim>\<open>before()\<close> or \<^verbatim>\<open>run()\<close> queues
  anything, the flush ends and has run the queued watchers once each in ascending
  order of their ids.
\<close>

theorem queued_once_runs_once:
  assumes "idle s0" and "production env \<or> async env" and "w \<in> set ws"
  shows "(\<forall>s. w \<in> has s \<longrightarrow> queueWatcher env s w = s) \<and>
         (\<forall>s x. count_list (queue (queueWatcher env s w)) x =
                  count_list (queue s) x + (if w \<notin> has s \<and> x = w then 1 else 0)) \<and>
         count_list (queue (foldl (queueWatcher env) s0 ws)) w = 1 \<and>
         scheduled (foldl (queueWatcher env) s0 ws) = scheduled s0 @ [NextTick] \<and>
         (let s = foldl (queueWatcher env) s0 ws;
              (s', u', tr, st) =
                 flushPrefix n env bf rn (s\<lparr>flushing := True, queue := sort (queue s), index := 0\<rparr>) u []
          in flushSchedulerQueue n env bf rn s u =
               (case st of
                  Running \<Rightarrow> None
                | Finished \<Rightarrow> Some (resetSchedulerState env s', u', tr, False, queue s')
                | Broke \<Rightarrow> Some (resetSchedulerState env s', u', tr, True, queue s')) \<and>
             tr = take (length tr) (queue s') \<and>
             distinct (drop (length tr) (queue s')) \<and>
             has s' = set (drop (length tr) (queue s')) \<and>
             (\<forall>x. count_list (queue s') x = count_list tr x + (if x \<in> has s' then 1 else 0)) \<and>
             (st = Running \<longrightarrow> length tr = n) \<and>
             (st = Finished \<longrightarrow> tr = queue s' \<and> has s' = {}) \<and>
             (never_requeued w bf rn \<longrightarrow>
                count_list (queue s') w = 1 \<and> count_list tr w \<le> 1 \<and>
                (st = Finished \<longrightarrow> count_list tr w = 1))) \<and>
         ((\<forall>u v. snd (bf u v) = [] \<and> snd (rn u v) = []) \<and> length ws \<le> n \<longrightarrow>
            (\<exists>s' u'. flushSchedulerQueue n env bf rn (foldl (queueWatcher env) s0 ws) u
               = Some (s', u', sort (queue (foldl (queueWatcher env) s0 ws)), False,
                       sort (queue (foldl (queueWatcher env) s0 ws)))))"
proof -
  define s where "s = foldl (queueWatcher env) s0 ws"
  define s1 where "s1 = s\<lparr>flushing := True, queue := sort (queue s), index := 0\<rparr>"
  obtain s' u' tr st where fp: "flushPrefix n env bf rn s1 u [] = (s', u', tr, st)"
    by (cases "flushPrefix n env bf rn s1 u []")
  have p0: "pending_ok s0" using assms(1) by (simp add: idle_def pending_ok_def)
  note P = foldl_queueWatcher_pending[OF p0, of env ws, folded s_def]
  have c1: "count_list (queue s) w = 1"
    using P assms(3) by (simp add: pending_ok_def distinct_count_list_one)
  have ne: "ws \<noteq> []" using assms(3) by auto
  have sch: "scheduled s = scheduled s0 @ [NextTick]"
    using idle_first_request[OF assms(1) ne, of env] assms(2) by (auto simp add: s_def)
  have a: "flushing s1" "index s1 \<le> length (queue s1)" "[] = take (index s1) (queue s1)"
    "has s1 = set (drop (index s1) (queue s1))" "distinct (drop (index s1) (queue s1))"
    using P by (simp_all add: s1_def pending_ok_def)
  note I = flushPrefix_inv[OF a fp]
  have i1: "tr = take (length tr) (queue s')" and i2: "has s' = set (drop (length tr) (queue s'))"
    and i3: "distinct (drop (length tr) (queue s'))" and i4: "st = Running \<longrightarrow> length tr = n"
    and i5: "st = Finished \<longrightarrow> tr = queue s'"
    using I by simp_all
  have i6: "st = Finished \<longrightarrow> tr = queue s' \<and> has s' = {}"
  proof
    assume f: "st = Finished"
    then have t: "tr = queue s'" using i5 by simp
    then have "drop (length tr) (queue s') = []" by simp
    then show "tr = queue s' \<and> has s' = {}" using t i2 by simp
  qed
  have cnt: "count_list (queue s') x = count_list tr x + (if x \<in> has s' then 1 else 0)" for x
  proof -
    have "count_list (queue s') x
            = count_list (take (length tr) (queue s')) x + count_list (drop (length tr) (queue s')) x"
      using count_list_take_drop[of "length tr" "queue s'" x] by simp
    then show ?thesis using i1 i2 i3 by (simp add: distinct_count_list_one)
  qed
  have fs: "flushSchedulerQueue n env bf rn s u =
               (case st of
                  Running \<Rightarrow> None
                | Finished \<Rightarrow> Some (resetSchedulerState env s', u', tr, False, queue s')
                | Broke \<Rightarrow> Some (resetSchedulerState env s', u', tr, True, queue s'))"
    using fp flushLoop_flushPrefix[of n env bf rn s1 u "[]"]
    by (cases st) (simp_all add: flushSchedulerQueue_def Let_def s1_def)
  have nr: "never_requeued w bf rn \<longrightarrow>
                count_list (queue s') w = 1 \<and> count_list tr w \<le> 1 \<and>
                (st = Finished \<longrightarrow> count_list tr w = 1)"
  proof
    assume h: "never_requeued w bf rn"
    have c: "count_list (queue s') w = 1"
      using flushPrefix_count[OF a(1) h fp] c1 by (simp add: s1_def count_list_sort)
    have le: "count_list tr w \<le> 1" using cnt[of w] c by simp
    have eq: "st = Finished \<longrightarrow> count_list tr w = 1" using i5 c by auto
    show "count_list (queue s') w = 1 \<and> count_list tr w \<le> 1 \<and>
                (st = Finished \<longrightarrow> count_list tr w = 1)"
      using c le eq by simp
  qed
  have B: "(\<forall>u v. snd (bf u v) = [] \<and> snd (rn u v) = []) \<and> length ws \<le> n \<longrightarrow>
      (\<exists>s' u'. flushSchedulerQueue n env bf rn s u
               = Some (s', u', sort (queue s), False, sort (queue s)))"
  proof
    assume h: "(\<forall>u v. snd (bf u v) = [] \<and> snd (rn u v) = []) \<and> length ws \<le> n"
    then have q: "\<forall>u v. snd (bf u v) = [] \<and> snd (rn u v) = []" and f: "length ws \<le> n" by simp_all
    have len: "length (queue s) \<le> length ws"
      using foldl_queueWatcher_length[of env s0 ws] assms(1) by (simp add: idle_def s_def)
    have b: "index s1 \<le> length (queue s1)" "length (queue s1) - index s1 \<le> n"
      using len f by (simp_all add: s1_def)
    from quiet_loop[OF q b, of env u "[]"] obtain t u2 where
      "flushLoop n env bf rn s1 u [] = Some (t, u2, sort (queue s), False)"
      "queue t = sort (queue s)"
      by (auto simp add: s1_def)
    then show "\<exists>s' u'. flushSchedulerQueue n env bf rn s u
               = Some (s', u', sort (queue s), False, sort (queue s))"
      by (simp add: flushSchedulerQueue_def Let_def s1_def)
  qed
  have R: "\<forall>s. w \<in> has s \<longrightarrow> queueWatcher env s w = s" by (simp add: queueWatcher_refuses)
  have E: "\<forall>s x. count_list (queue (queueWatcher env s w)) x =
                  count_list (queue s) x + (if w \<notin> has s \<and> x = w then 1 else 0)"
    using queueWatcher_entry by blast
  have cntA: "\<forall>x. count_list (queue s') x = count_list tr x + (if x \<in> has s' then 1 else 0)"
    using cnt by blast
  show ?thesis
    unfolding s_def[symmetric] Let_def s1_def[symmetric] fp prod.case
    using R E c1 sch fs i1 i3 i2 cntA i4 i6 nr B by (intro conjI)
qed

text \<open>
  A flush may run a watcher more than once (C2 in the words of the specification
  allows one \<^verbatim>\<open>run()\<close> at most): watchers 1 and 2 are queued, and the \<^verbatim>\<open>run()\<close> of watcher 2 writes what watcher 1
  reads. Watcher 1 is pending no more, is queued again behind the cursor, and runs
  twice in the one flush.
\<close>

theorem rerun_in_one_flush_counterexample:
  "map_option (\<lambda>(s', u', tr, warned, uq). (tr, warned, count_list tr 1))
     (flushSchedulerQueue 3 browser_env quiet child_writes_parent
        (foldl (queueWatcher browser_env) idle_sched [1, 2]) ())
    = Some ([1, 2, 1], False, 2)"
  by code_simp

section \<open>Proofs: the update-loop guard\<close>

lemma scan_back_stop: "\<not> (i > int idx) \<Longrightarrow> scan_back q idx i w = i"
  by (subst scan_back.simps) simp

lemma retrigger_step:
  assumes "snd (bf u w) = []" and "snd (rn (fst (bf u w)) w) = [w]"
    and "queue s = replicate (Suc k) w" and "index s = k" and "has s = {w}"
    and "flushing s" and "waiting s"
  shows "flushLoop (Suc fuel) env bf rn s u tr =
     (let s3 = s\<lparr>queue := replicate (Suc (Suc k)) w\<rparr>;
          u2 = fst (rn (fst (bf u w)) w)
      in if \<not> production env then
             let s4 = s3\<lparr>circular := (circular s3)(w := circular s3 w + 1)\<rparr>
             in if circular s4 w > MAX_UPDATE_COUNT then Some (s4, u2, tr @ [w], True)
                else flushLoop fuel env bf rn (s4\<lparr>index := index s4 + 1\<rparr>) u2 (tr @ [w])
           else flushLoop fuel env bf rn (s3\<lparr>index := index s3 + 1\<rparr>) u2 (tr @ [w]))"
proof -
  obtain u1 where bf: "bf u w = (u1, [])" using assms(1) by (cases "bf u w") simp
  obtain u2 where rn: "rn u1 w = (u2, [w])" using assms(2) bf by (cases "rn u1 w") simp
  have w0: "queue s ! index s = w" using assms(3,4) by (simp del: replicate_Suc)
  let ?s2 = "s\<lparr>has := has s - {w}\<rparr>"
  have sb: "scan_back (queue ?s2) (index ?s2) (int (length (queue ?s2)) - 1) w = int k"
    using assms(3,4) by (simp add: scan_back_stop)
  have q: "queueWatcher env ?s2 w = s\<lparr>queue := replicate (Suc (Suc k)) w\<rparr>"
    using assms(3-7) sb
    by (simp add: queueWatcher_def Let_def replicate_append_same)
  show ?thesis
    using assms(3,4) w0 bf rn q assms(5)
    by (simp add: Let_def)
qed

lemma retrigger_loop:
  assumes "\<not> production env" and "\<forall>u. snd (bf u w) = []" and "\<forall>u. snd (rn u w) = [w]"
  shows "k \<le> MAX_UPDATE_COUNT \<Longrightarrow> MAX_UPDATE_COUNT - k < fuel \<Longrightarrow>
         queue s = replicate (Suc k) w \<Longrightarrow> index s = k \<Longrightarrow> has s = {w} \<Longrightarrow>
         circular s w = k \<Longrightarrow> flushing s \<Longrightarrow> waiting s \<Longrightarrow>
         \<exists>s' u'. flushLoop fuel env bf rn s u tr
                   = Some (s', u', tr @ replicate (Suc MAX_UPDATE_COUNT - k) w, True)"
proof (induction fuel arbitrary: k s u tr)
  case 0
  then show ?case by simp
next
  case (Suc fuel)
  note st = retrigger_step[of bf u w rn s k fuel env tr, OF assms(2)[rule_format] assms(3)[rule_format]
      Suc.prems(3,4,5,7,8)]
  show ?case
  proof (cases "k = MAX_UPDATE_COUNT")
    case True
    then show ?thesis using st assms(1) Suc.prems(6) by (simp add: Let_def)
  next
    case False
    then have lt: "k < MAX_UPDATE_COUNT" using Suc.prems(1) by simp
    let ?s5 = "s\<lparr>queue := replicate (Suc (Suc k)) w, circular := (circular s)(w := Suc k), index := Suc k\<rparr>"
    let ?u2 = "fst (rn (fst (bf u w)) w)"
    have e: "flushLoop (Suc fuel) env bf rn s u tr = flushLoop fuel env bf rn ?s5 ?u2 (tr @ [w])"
      using st assms(1) Suc.prems(4,6) lt by (simp add: Let_def)
    have a: "Suc k \<le> MAX_UPDATE_COUNT" "MAX_UPDATE_COUNT - Suc k < fuel" using lt Suc.prems(2) by simp_all
    from Suc.IH[OF a, of ?s5 ?u2 "tr @ [w]"] Suc.prems(5,7,8)
    obtain s' u' where
      r: "flushLoop fuel env bf rn ?s5 ?u2 (tr @ [w])
            = Some (s', u', (tr @ [w]) @ replicate (Suc MAX_UPDATE_COUNT - Suc k) w, True)"
      by auto
    have "(tr @ [w]) @ replicate (Suc MAX_UPDATE_COUNT - Suc k) w = tr @ replicate (Suc MAX_UPDATE_COUNT - k) w"
      using lt by (simp add: Suc_diff_le replicate_app_Cons_same flip: replicate_Suc)
    then show ?thesis using e r by simp
  qed
qed

lemma retrigger_production:
  assumes "production env" and "\<forall>u. snd (bf u w) = []" and "\<forall>u. snd (rn u w) = [w]"
  shows "queue s = replicate (Suc k) w \<Longrightarrow> index s = k \<Longrightarrow> has s = {w} \<Longrightarrow>
         flushing s \<Longrightarrow> waiting s \<Longrightarrow> flushLoop fuel env bf rn s u tr = None"
proof (induction fuel arbitrary: k s u tr)
  case 0
  then show ?case by simp
next
  case (Suc fuel)
  note st = retrigger_step[of bf u w rn s k fuel env tr, OF assms(2)[rule_format] assms(3)[rule_format]
      Suc.prems]
  let ?s5 = "s\<lparr>queue := replicate (Suc (Suc k)) w, index := Suc k\<rparr>"
  have e: "flushLoop (Suc fuel) env bf rn s u tr
             = flushLoop fuel env bf rn ?s5 (fst (rn (fst (bf u w)) w)) (tr @ [w])"
    using st assms(1) Suc.prems(2) by (simp add: Let_def)
  show ?case using e Suc.IH[of ?s5 "Suc k"] Suc.prems by simp
qed

lemma queue_first:
  "idle s0 \<Longrightarrow>
     queue (queueWatcher env s0 w) = [w] \<and> has (queueWatcher env s0 w) = {w} \<and>
     waiting (queueWatcher env s0 w) \<and> index (queueWatcher env s0 w) = 0 \<and>
     circular (queueWatcher env s0 w) = circular s0"
  by (simp add: idle_def queueWatcher_def Let_def)

text \<open>
  Claim C4. In a build that is not a production build, a flush of a
  watcher whose \<^verbatim>\<open>run()\<close> queues the watcher itself every time ends, given fuel for
  \<open>MAX_UPDATE_COUNT + 1\<close> steps: the watcher has run \<open>MAX_UPDATE_COUNT + 1\<close> times (its
  first run and 100 re-entries), the loop ended by the \<^verbatim>\<open>break\<close> after the warning,
  and the scheduler is idle again.
\<close>

theorem self_retrigger_stops:
  assumes "\<not> production env" and "idle s0"
    and "\<forall>u. snd (bf u w) = []" and "\<forall>u. snd (rn u w) = [w]"
    and "MAX_UPDATE_COUNT < fuel"
  shows "\<exists>s' u' uq. flushSchedulerQueue fuel env bf rn (queueWatcher env s0 w) u
            = Some (s', u', replicate (MAX_UPDATE_COUNT + 1) w, True, uq) \<and> idle s'"
proof -
  let ?s = "queueWatcher env s0 w"
  let ?s1 = "?s\<lparr>flushing := True, queue := sort (queue ?s), index := 0\<rparr>"
  note q = queue_first[OF assms(2), of env w]
  have a: "queue ?s1 = replicate (Suc 0) w" "index ?s1 = 0" "has ?s1 = {w}" "circular ?s1 w = 0"
    "flushing ?s1" "waiting ?s1"
    using q assms(2) by (simp_all add: idle_def)
  have "\<exists>s1 u'. flushLoop fuel env bf rn ?s1 u []
           = Some (s1, u', [] @ replicate (Suc MAX_UPDATE_COUNT - 0) w, True)"
    by (rule retrigger_loop[where bf = bf and rn = rn and w = w and env = env, OF assms(1,3,4)])
       (use a assms(5) in simp_all)
  then obtain s1 u' where
    l: "flushLoop fuel env bf rn ?s1 u [] = Some (s1, u', replicate (Suc MAX_UPDATE_COUNT) w, True)"
    by auto
  have "idle (resetSchedulerState env s1)"
    using assms(1) by (simp add: idle_def resetSchedulerState_def)
  then show ?thesis using l by (simp add: flushSchedulerQueue_def Let_def)
qed

text \<open>
  The guard is a development aid (C4 in the words of the specification holds of
  every build): in a production build the counter is not kept, and the flush of a
  watcher that queues itself does not end with any amount of fuel.
\<close>

theorem production_retrigger_counterexample:
  "\<forall>fuel. flushSchedulerQueue fuel production_env quiet retrigger_self
             (queueWatcher production_env idle_sched 1) () = None"
proof
  fix fuel
  let ?s = "queueWatcher production_env idle_sched 1"
  let ?s1 = "?s\<lparr>flushing := True, queue := sort (queue ?s), index := 0\<rparr>"
  have i: "idle idle_sched" by (simp add: idle_def idle_sched_def)
  note q = queue_first[OF i, of production_env 1]
  have a: "queue ?s1 = replicate (Suc 0) 1" "index ?s1 = 0" "has ?s1 = {1}" "flushing ?s1" "waiting ?s1"
    using q by simp_all
  have p: "production production_env" by (simp add: production_env_def browser_env_def)
  have b: "\<forall>u. snd (quiet u 1) = []" "\<forall>u. snd (retrigger_self u 1) = [1]"
    by (simp_all add: quiet_def retrigger_self_def)
  have "flushLoop fuel production_env quiet retrigger_self ?s1 () [] = None"
    by (rule retrigger_production[where bf = quiet and rn = retrigger_self and w = 1
            and env = production_env and k = 0, OF p b])
       (use a in simp_all)
  then show "flushSchedulerQueue fuel production_env quiet retrigger_self ?s () = None"
    by (simp add: flushSchedulerQueue_def Let_def)
qed

section \<open>Proofs: reactive properties, observe, array methods\<close>

text \<open>
  Claim C3. Assigning a value that is strictly equal to the current value of a
  reactive property, or NaN when the current value is NaN, changes neither the heap
  nor the closure of the property, calls \<^verbatim>\<open>customSetter\<close> and \<^verbatim>\<open>notify()\<close> not at
  all, and so no subscriber receives \<^verbatim>\<open>update()\<close>.
\<close>

theorem same_value_no_notify:
  "strict_eq newVal (currentValue p) \<or> (newVal = VNaN \<and> currentValue p = VNaN) \<Longrightarrow>
     reactiveSetter env construct h p newVal = (h, p, 0, []) \<and>
     updates env s (snd (snd (snd (reactiveSetter env construct h p newVal)))) = []"
  by (auto simp add: reactiveSetter_def Let_def strict_eq_def updates_def)

text \<open>
  Claim C7. The tests of \<open>observe\<close> apply in this order. A value that is
  not an object, a function or a VNode instance gives \<^verbatim>\<open>undefined\<close> and an unchanged
  heap. Any other object that carries an observer gives that observer; no object is
  changed, and the heap is unchanged unless \<^verbatim>\<open>asRootData\<close> counts the owner. An
  object that carries no observer and is neither an array nor a plain object, or is
  not extensible, or is marked \<^verbatim>\<open>_isVue\<close>, gives \<^verbatim>\<open>undefined\<close> and an unchanged
  heap.
\<close>

theorem observe_idempotent_and_skips:
  "(\<not> isObject h v \<or> instanceofVNode h v \<longrightarrow> observe env construct h v asRoot = (h, None)) \<and>
   (isObject h v \<and> \<not> instanceofVNode h v \<longrightarrow>
      (\<forall>i. ownObserver h v = Some i \<longrightarrow>
           snd (observe env construct h v asRoot) = Some i \<and>
           objs (fst (observe env construct h v asRoot)) = objs h \<and>
           (\<not> asRoot \<longrightarrow> fst (observe env construct h v asRoot) = h)) \<and>
      (ownObserver h v = None \<and>
       (\<not> (isArray h v \<or> isPlainObject h v) \<or> \<not> isExtensible h v \<or> markedVue h v)
         \<longrightarrow> observe env construct h v asRoot = (h, None)))"
  by (auto simp add: observe_def Let_def)

lemma grows_refl: "grows h h"
  by (simp add: grows_def)

lemma grows_trans: "grows h h' \<Longrightarrow> grows h' h'' \<Longrightarrow> grows h h''"
  by (simp add: grows_def)

lemma grows_observable:
  "grows h h' \<Longrightarrow> observable env h v \<Longrightarrow> observable env h' v"
  by (cases v)
     (auto simp add: grows_def observable_def isObject_def instanceofVNode_def ownObserver_def
        isArray_def isPlainObject_def isExtensible_def markedVue_def)

lemma grows_ownObserver:
  "grows h h' \<Longrightarrow> ownObserver h v \<noteq> None \<Longrightarrow> ownObserver h' v \<noteq> None"
  by (cases v) (auto simp add: grows_def ownObserver_def)

lemma observe_grows:
  assumes "marks construct"
  shows "grows h (fst (observe env construct h v False))"
    and "observable env h v \<Longrightarrow> ownObserver (fst (observe env construct h v False)) v \<noteq> None"
proof -
  have m: "ob (objs (fst (construct h r)) r) = Some (snd (construct h r))"
    "grows h (fst (construct h r))" for r
    using assms by (simp_all add: marks_def grows_def)
  show "grows h (fst (observe env construct h v False))"
    using m(2) by (cases v) (auto simp add: observe_def Let_def case_prod_beta grows_refl split: option.splits)
  show "observable env h v \<Longrightarrow> ownObserver (fst (observe env construct h v False)) v \<noteq> None"
    using m(1)
    by (cases v)
       (auto simp add: observe_def observable_def Let_def case_prod_beta ownObserver_def isObject_def
          split: option.splits)
qed

lemma observeArray_grows:
  assumes "marks construct"
  shows "grows h (observeArray env construct h items) \<and>
         (\<forall>x \<in> set items. observable env h x \<longrightarrow>
              ownObserver (observeArray env construct h items) x \<noteq> None)"
proof (induction items arbitrary: h)
  case Nil
  then show ?case by (simp add: observeArray_def grows_refl)
next
  case (Cons v items)
  let ?h1 = "fst (observe env construct h v False)"
  have e: "observeArray env construct h (v # items) = observeArray env construct ?h1 items"
    by (simp add: observeArray_def)
  note g1 = observe_grows[OF assms, where h = h and env = env and v = v]
  note IH = Cons.IH[of ?h1]
  have g: "grows h (observeArray env construct ?h1 items)"
    using grows_trans[OF g1(1)] IH by blast
  have v: "observable env h v \<Longrightarrow> ownObserver (observeArray env construct ?h1 items) v \<noteq> None"
    using g1(2) IH grows_ownObserver by blast
  have r: "\<forall>x \<in> set items. observable env h x \<longrightarrow>
              ownObserver (observeArray env construct ?h1 items) x \<noteq> None"
    using IH grows_observable[OF g1(1)] by blast
  show ?case unfolding e using g v r by auto
qed

text \<open>
  Claim C5. Each of the seven patched methods of an observed array returns what its
  original in \<^verbatim>\<open>Array.prototype\<close> returns, passes to \<open>observeArray\<close> the arguments
  (\<^verbatim>\<open>push\<close>, \<^verbatim>\<open>unshift\<close>), the arguments after the second (\<^verbatim>\<open>splice\<close>) or
  nothing, and then calls \<^verbatim>\<open>notify()\<close> once, on the node of the observer of the
  array; a watcher subscribed once to that node receives one \<^verbatim>\<open>update()\<close>. With a
  constructor that defines \<^verbatim>\<open>__ob__\<close>, every inserted element that can be observed
  carries an observer afterwards.
\<close>

theorem mutator_contract:
  assumes "ob (objs h this) = Some i"
  shows "\<exists>h'. mutator env construct arrayProto m h this args
            = Inr (h', snd (arrayProto m (elems (objs h this)) args), [ob_dep (observers h' i)]) \<and>
          h' = observeArray env construct
                 (h\<lparr>objs := (objs h)(this := (objs h this)
                        \<lparr>elems := fst (arrayProto m (elems (objs h this)) args)\<rparr>)\<rparr>)
                 (if m = Push \<or> m = Unshift then args else if m = Splice then drop 2 args else []) \<and>
          (marks construct \<longrightarrow>
             (\<forall>x \<in> set (if m = Push \<or> m = Unshift then args else if m = Splice then drop 2 args else []).
                 observable env h x \<longrightarrow> ownObserver h' x \<noteq> None)) \<and>
          (\<forall>s w. count_list (subs s (ob_dep (observers h' i))) w = 1 \<longrightarrow>
                 count_list (updates env s [ob_dep (observers h' i)]) w = 1)"
proof -
  let ?items = "if m = Push \<or> m = Unshift then args else if m = Splice then drop 2 args else []"
  let ?h1 = "h\<lparr>objs := (objs h)(this := (objs h this)
                        \<lparr>elems := fst (arrayProto m (elems (objs h this)) args)\<rparr>)\<rparr>"
  let ?h' = "observeArray env construct ?h1 ?items"
  have g1: "grows h ?h1" by (simp add: grows_def)
  have a: "mutator env construct arrayProto m h this args
            = Inr (?h', snd (arrayProto m (elems (objs h this)) args), [ob_dep (observers ?h' i)])"
    using assms
    by (cases m; cases "arrayProto m (elems (objs h this)) args")
       (simp_all add: mutator_def inserted_def observeArray_def Let_def)
  have b: "marks construct \<Longrightarrow> \<forall>x \<in> set ?items. observable env h x \<longrightarrow> ownObserver ?h' x \<noteq> None"
    using observeArray_grows[where construct = construct and h = ?h1 and env = env and items = ?items]
      grows_observable[OF g1] by blast
  have c: "\<forall>s w. count_list (subs s (ob_dep (observers ?h' i))) w = 1 \<longrightarrow>
                 count_list (updates env s [ob_dep (observers ?h' i)]) w = 1"
    by (simp add: updates_def notify_def Let_def count_list_sort)
  show ?thesis using a b c by blast
qed

section \<open>Proofs: paths\<close>

lemma get_result:
  "snd (get env s w evs out) =
     (case out of
        Returns v \<Rightarrow> Inr v
      | Throws e \<Rightarrow>
          if user (watchers s w) then
            (case snd (handleError env s e) of Inl x \<Rightarrow> Inl x | Inr u \<Rightarrow> Inr VUndefined)
          else Inl e)"
proof -
  from get_decompose[of env s w evs out] obtain a b where
    "get env s w evs out = (a, b)"
    and "b = (case out of
        Returns v \<Rightarrow> Inr v
      | Throws e \<Rightarrow>
          if user (watchers s w) then
            (case snd (handleError env s e) of Inl x \<Rightarrow> Inl x | Inr u \<Rightarrow> Inr VUndefined)
          else Inl e)"
    by blast
  then show ?thesis by simp
qed

lemma split_dot_nonempty: "split_dot p \<noteq> []"
  by (induction p) auto

lemma split_dot_segments:
  "(\<forall>seg \<in> set (split_dot p). 0x2E \<notin> set seg) \<and> length (split_dot p) = Suc (count_list p 0x2E)"
proof (induction p)
  case Nil
  then show ?case by simp
next
  case (Cons c cs)
  obtain x xs where sp: "split_dot cs = x # xs" using split_dot_nonempty[of cs] by (cases "split_dot cs") auto
  show ?case using Cons sp by auto
qed

lemma pathGetter_snoc:
  "snd (pathGetter lk (segs @ [seg]) obj) =
     (let v = snd (pathGetter lk segs obj) in if falsy v then VUndefined else snd (lk v seg))"
proof (induction segs arbitrary: obj)
  case Nil
  then show ?case by (simp add: Let_def case_prod_beta)
next
  case (Cons a segs)
  then show ?case by (simp add: Let_def case_prod_beta)
qed

lemma pathGetter_absent:
  "segs2 \<noteq> [] \<Longrightarrow> falsy (snd (pathGetter lk segs1 obj)) \<Longrightarrow>
     snd (pathGetter lk (segs1 @ segs2) obj) = VUndefined"
proof (induction segs1 arbitrary: obj)
  case Nil
  then show ?case by (cases segs2) simp_all
next
  case (Cons a segs1)
  show ?case
  proof (cases "falsy obj")
    case True
    then show ?thesis by simp
  next
    case False
    then have "falsy (snd (pathGetter lk segs1 (snd (lk obj a))))"
      using Cons.prems(2) by (simp add: Let_def case_prod_beta)
    from Cons.IH[OF Cons.prems(1) this] False show ?thesis
      by (simp add: Let_def case_prod_beta)
  qed
qed

text \<open>
  Claim C9. \<open>parsePath\<close> fails exactly on the paths with a character outside the
  letters of \<open>unicodeRegExp\<close>, the digits, \<^verbatim>\<open>.\<close>, \<^verbatim>\<open>$\<close> and \<^verbatim>\<open>_\<close>. For such a
  path it returns \<^verbatim>\<open>undefined\<close>, the constructor installs the no-op getter (with one
  warning outside production), and the evaluations of the watcher and its constructor
  give \<^verbatim>\<open>undefined\<close> and do not throw. For any other path it returns the getter
  over the segments between the dots, which walks them one by one and gives
  \<^verbatim>\<open>undefined\<close> as soon as the value before a segment is falsy.
\<close>

theorem parsePath_contract:
  "bailRE_test path = (\<exists>c \<in> set path. \<not> allowed c) \<and>
   (bailRE_test path \<longrightarrow>
      parsePath path = None \<and>
      watcherGetter env (Path path) = (Noop, if production env then 0 else 1) \<and>
      callGetter lk Noop vm = ([], Returns VUndefined) \<and>
      snd (get env s w [] (Returns VUndefined)) = Inr VUndefined \<and>
      snd (newWatcher env lk s w opts (Path path) vm)
        = (Inr VUndefined, if production env then 0 else 1)) \<and>
   (\<not> bailRE_test path \<longrightarrow>
      parsePath path = Some (split_dot path) \<and>
      watcherGetter env (Path path) = (PathGetter (split_dot path), 0) \<and>
      (\<forall>seg \<in> set (split_dot path). 0x2E \<notin> set seg) \<and>
      length (split_dot path) = Suc (count_list path 0x2E)) \<and>
   snd (pathGetter lk [] obj) = obj \<and>
   (\<forall>segs seg. snd (pathGetter lk (segs @ [seg]) obj) =
      (let v = snd (pathGetter lk segs obj) in if falsy v then VUndefined else snd (lk v seg))) \<and>
   (\<forall>segs1 segs2. segs2 \<noteq> [] \<and> falsy (snd (pathGetter lk segs1 obj)) \<longrightarrow>
      snd (pathGetter lk (segs1 @ segs2) obj) = VUndefined)"
proof -
  have a: "bailRE_test path = (\<exists>c \<in> set path. \<not> allowed c)"
    by (simp add: bailRE_test_def list_ex_iff)
  have g: "snd (get env s' w [] (Returns VUndefined)) = Inr VUndefined" for s'
    by (simp add: get_result del: get.simps)
  have b: "bailRE_test path \<Longrightarrow>
      snd (newWatcher env lk s w opts (Path path) vm)
        = (Inr VUndefined, if production env then 0 else 1)"
    using g
    by (simp add: newWatcher_def watcherGetter_def parsePath_def callGetter_def Let_def
             case_prod_beta del: get.simps)
  show ?thesis
    using a b g split_dot_segments[of path] pathGetter_snoc[of lk _ _ obj] pathGetter_absent[of _ lk _ obj]
    by (simp add: parsePath_def watcherGetter_def callGetter_def del: get.simps)
qed

section \<open>Inputs that separate the code from the specification\<close>

text \<open>
  Where the specification says more than the code does. C1: the getter of watcher 1
  reads node 10, evaluates watcher 1 again, and reads node 12. The inner evaluation
  reconciles in the middle of the outer one, so at the end the watcher depends on
  node 12 alone and a write to node 10, which the getter read, does not reach it.
  C6: without a console to log to, the error of a user watcher's getter leaves
  \<^verbatim>\<open>get()\<close> instead of giving \<^verbatim>\<open>undefined\<close>; so does, outside production, the
  TypeError of \<^verbatim>\<open>err.toString()\<close> when the getter throws \<^verbatim>\<open>undefined\<close>. C7: an
  object frozen after it was observed is not extensible, and \<open>observe\<close> returns its
  observer, not \<^verbatim>\<open>undefined\<close>.
\<close>

theorem get_reentrant_counterexample:
  "settled fresh_state 1 \<and> 1 \<in> evaluated_list reentrant_getter \<and>
   direct_reads reentrant_getter = [10, 12] \<and>
   (let s' = fst (get browser_env fresh_state 1 reentrant_getter (Returns VUndefined))
    in deps (watchers s' 1) = [12] \<and> depIds (watchers s' 1) = {12} \<and>
       subs s' 10 = [] \<and> notify browser_env s' 10 = [])"
  by (simp add: settled_def reentrant_getter_def fresh_state_def fresh_watcher_def browser_env_def
        Let_def pushTarget_def popTarget_def stackTop_def depend_def addDep_def addSub_def
        cleanupDeps_def removeSub_def notify_def)

theorem get_user_error_counterexample:
  "user (watchers user_state 1) \<and>
   snd (get node_env user_state 1 [] (Throws (VNum 0))) = Inl (VNum 0) \<and>
   snd (get browser_env user_state 1 [] (Throws VUndefined)) = Inl VTypeError"
  by (simp add: get_result handleError_snd handleErrorBody_def globalHandleError_def logError_def
        toStringError_def user_state_def fresh_state_def fresh_watcher_def node_env_def
        browser_env_def Let_def del: get.simps)

theorem observe_frozen_counterexample:
  "\<not> isExtensible example_heap (VRef 0) \<and>
   observe browser_env mark_only example_heap (VRef 0) False = (example_heap, Some 5)"
  by (simp add: observe_def isObject_def instanceofVNode_def ownObserver_def isExtensible_def
        example_heap_def plain_object_def Let_def)

section \<open>The theorems at concrete inputs\<close>

theorem get_tracks_reads_witness:
  "settled fresh_state 1 \<and>
   1 \<notin> evaluated_list (fst (ternary_getter 10 11 12 cond_true)) \<and>
   1 \<notin> evaluated_list (fst (ternary_getter 10 11 12 cond_false)) \<and>
   (let s1 = fst (get browser_env fresh_state 1
                    (fst (ternary_getter 10 11 12 cond_true)) (snd (ternary_getter 10 11 12 cond_true)));
        s2 = fst (get browser_env s1 1
                    (fst (ternary_getter 10 11 12 cond_false)) (snd (ternary_getter 10 11 12 cond_false)))
    in depIds (watchers s1 1) = {10, 11} \<and>
       count_list (notify browser_env s1 12) 1 = 0 \<and>
       count_list (notify browser_env s1 11) 1 = 1 \<and>
       settled s1 1 \<and>
       depIds (watchers s2 1) = {10, 12} \<and>
       count_list (notify browser_env s2 12) 1 = 1 \<and>
       count_list (notify browser_env s2 11) 1 = 0)"
proof -
  have h1: "settled fresh_state 1"
    by (simp add: settled_def fresh_state_def fresh_watcher_def)
  have e: "ternary_getter 10 11 12 cond_true = ([Depend 10, Depend 11], Returns (VNum 11))"
    "ternary_getter 10 11 12 cond_false = ([Depend 10, Depend 12], Returns (VNum 12))"
    by (simp_all add: ternary_getter_def cond_true_def cond_false_def)
  have h2: "1 \<notin> evaluated_list (fst (ternary_getter 10 11 12 cond_true))"
    "1 \<notin> evaluated_list (fst (ternary_getter 10 11 12 cond_false))"
    by (simp_all add: e)
  define s1 where "s1 = fst (get browser_env fresh_state 1
                    (fst (ternary_getter 10 11 12 cond_true)) (snd (ternary_getter 10 11 12 cond_true)))"
  have t: "touched browser_env dp r = []" for dp r
    by (simp add: touched_def browser_env_def split: sum.splits jsval.splits)
  from get_tracks_reads[OF h1 h2(1), where env = browser_env and out = "snd (ternary_getter 10 11 12 cond_true)"]
  have a: "depIds (watchers s1 1) = {10, 11}" "count_list (notify browser_env s1 12) 1 = 0"
    "count_list (notify browser_env s1 11) 1 = 1" "settled s1 1"
    unfolding Let_def t s1_def[symmetric] by (simp_all add: e del: get.simps)
  from get_tracks_reads[OF a(4) h2(2), where env = browser_env and out = "snd (ternary_getter 10 11 12 cond_false)"]
  have b: "depIds (watchers (fst (get browser_env s1 1
                    (fst (ternary_getter 10 11 12 cond_false)) (snd (ternary_getter 10 11 12 cond_false)))) 1) = {10, 12}"
    "count_list (notify browser_env (fst (get browser_env s1 1
                    (fst (ternary_getter 10 11 12 cond_false)) (snd (ternary_getter 10 11 12 cond_false)))) 12) 1 = 1"
    "count_list (notify browser_env (fst (get browser_env s1 1
                    (fst (ternary_getter 10 11 12 cond_false)) (snd (ternary_getter 10 11 12 cond_false)))) 11) 1 = 0"
    unfolding Let_def t by (simp_all add: e del: get.simps)
  show ?thesis using h1 h2 a b unfolding Let_def s1_def[symmetric] by simp
qed

theorem queued_once_runs_once_witness:
  "idle idle_sched \<and> (production browser_env \<or> async browser_env) \<and> (1::nat) \<in> set [1, 1, 1] \<and>
   never_requeued 1 quiet quiet \<and>
   (\<forall>u v. snd (quiet u v) = [] \<and> snd (quiet u v) = []) \<and> length [1 :: nat, 1, 1] \<le> 3 \<and>
   1 \<in> has (queueWatcher browser_env idle_sched 1) \<and>
   queueWatcher browser_env (queueWatcher browser_env idle_sched 1) 1
     = queueWatcher browser_env idle_sched 1 \<and>
   count_list (queue (foldl (queueWatcher browser_env) idle_sched [1, 1, 1])) 1 = 1 \<and>
   scheduled (foldl (queueWatcher browser_env) idle_sched [1, 1, 1]) = [NextTick] \<and>
   (\<exists>s'. flushSchedulerQueue 3 browser_env quiet quiet
            (foldl (queueWatcher browser_env) idle_sched [1, 1, 1]) ()
          = Some (s', (), [1], False, [1])) \<and>
   (production production_env \<or> async production_env) \<and> (2::nat) \<in> set [1, 2] \<and>
   never_requeued 2 quiet first_retriggers \<and>
   (let s = foldl (queueWatcher production_env) idle_sched [1, 2];
        (s', u', tr, st) =
           flushPrefix 5 production_env quiet first_retriggers
             (s\<lparr>flushing := True, queue := sort (queue s), index := 0\<rparr>) () []
    in st = Running \<and> tr = [1, 1, 1, 1, 1] \<and> length tr = 5 \<and> count_list tr 2 \<le> 1 \<and>
       count_list (queue s') 2 = 1 \<and> 2 \<in> has s' \<and>
       flushSchedulerQueue 5 production_env quiet first_retriggers s () = None)"
proof -
  have h1: "idle idle_sched" by (simp add: idle_def idle_sched_def)
  have h2: "production browser_env \<or> async browser_env"
    "production production_env \<or> async production_env"
    by (simp_all add: browser_env_def production_env_def)
  have h3: "(1::nat) \<in> set [1, 1, 1]" "(2::nat) \<in> set [1, 2]" by simp_all
  have h4: "never_requeued 1 quiet quiet" "never_requeued 2 quiet first_retriggers"
    by (simp_all add: never_requeued_def quiet_def first_retriggers_def)
  have h5: "\<forall>u v. snd (quiet u v) = [] \<and> snd (quiet u v) = []" by (simp add: quiet_def)
  have q: "queue (foldl (queueWatcher browser_env) idle_sched [1, 1, 1]) = [1]"
    by (simp add: queueWatcher_def idle_sched_def browser_env_def Let_def)
  have hq: "1 \<in> has (queueWatcher browser_env idle_sched 1)" by (rule queueWatcher_has)
  note A = queued_once_runs_once[OF h1 h2(1) h3(1), where n = 3 and u = "()" and bf = quiet
             and rn = quiet]
  have a1: "queueWatcher browser_env (queueWatcher browser_env idle_sched 1) 1
              = queueWatcher browser_env idle_sched 1"
    using A[THEN conjunct1] hq by blast
  have a2: "count_list (queue (foldl (queueWatcher browser_env) idle_sched [1, 1, 1])) 1 = 1"
    using A[THEN conjunct2, THEN conjunct2, THEN conjunct1] .
  have a2': "scheduled (foldl (queueWatcher browser_env) idle_sched [1, 1, 1]) = [NextTick]"
    using A[THEN conjunct2, THEN conjunct2, THEN conjunct2, THEN conjunct1]
    by (simp add: idle_sched_def)
  have a3: "\<exists>s'. flushSchedulerQueue 3 browser_env quiet quiet
            (foldl (queueWatcher browser_env) idle_sched [1, 1, 1]) ()
          = Some (s', (), [1], False, [1])"
    using A[THEN conjunct2, THEN conjunct2, THEN conjunct2, THEN conjunct2, THEN conjunct2]
      h5 q by simp
  define s where "s = foldl (queueWatcher production_env) idle_sched [1, 2]"
  define s1 where "s1 = s\<lparr>flushing := True, queue := sort (queue s), index := 0\<rparr>"
  obtain s' u' tr st where
    fp: "flushPrefix 5 production_env quiet first_retriggers s1 () [] = (s', u', tr, st)"
    by (cases "flushPrefix 5 production_env quiet first_retriggers s1 () []")
  have run: "(\<lambda>(s', u', tr, st). (tr, st))
               (flushPrefix 5 production_env quiet first_retriggers
                 ((foldl (queueWatcher production_env) idle_sched [1, 2])
                    \<lparr>flushing := True,
                     queue := sort (queue (foldl (queueWatcher production_env) idle_sched [1, 2])),
                     index := 0\<rparr>) () [])
             = ([1, 1, 1, 1, 1], Running)"
    by code_simp
  have ts: "tr = [1, 1, 1, 1, 1]" "st = Running"
    using run fp unfolding s1_def s_def by simp_all
  note B = queued_once_runs_once[OF h1 h2(2) h3(2), where n = 5 and u = "()" and bf = quiet
             and rn = first_retriggers, folded s_def, unfolded Let_def, folded s1_def,
             unfolded fp prod.case]
  have b1: "flushSchedulerQueue 5 production_env quiet first_retriggers s () = None"
    using B ts by simp
  have b2: "st = Running \<longrightarrow> length tr = 5" using B by blast
  have b3: "count_list (queue s') 2 = 1" "count_list tr 2 \<le> 1" using B h4(2) by blast+
  have b4: "count_list (queue s') 2 = count_list tr 2 + (if 2 \<in> has s' then 1 else 0)"
    using B by blast
  have c0: "count_list tr 2 = 0" unfolding ts by simp
  have b5: "2 \<in> has s'"
  proof (rule ccontr)
    assume "2 \<notin> has s'"
    then have "count_list (queue s') 2 = count_list tr 2" using b4 by simp
    then show False using b3(1) c0 by simp
  qed
  have b6: "length tr = 5" using b2 ts by simp
  have Bw: "let s = foldl (queueWatcher production_env) idle_sched [1, 2];
        (s', u', tr, st) =
           flushPrefix 5 production_env quiet first_retriggers
             (s\<lparr>flushing := True, queue := sort (queue s), index := 0\<rparr>) () []
    in st = Running \<and> tr = [1, 1, 1, 1, 1] \<and> length tr = 5 \<and> count_list tr 2 \<le> 1 \<and>
       count_list (queue s') 2 = 1 \<and> 2 \<in> has s' \<and>
       flushSchedulerQueue 5 production_env quiet first_retriggers s () = None"
    unfolding s_def[symmetric] Let_def s1_def[symmetric] fp prod.case
    using ts b6 b3 b5 b1 by (intro conjI)
  show ?thesis using h1 h2 h3 h4 h5 hq a1 a2 a2' a3 Bw by (intro conjI) simp_all
qed

theorem same_value_no_notify_witness:
  "(strict_eq VNaN (currentValue example_prop) \<or> (VNaN = VNaN \<and> currentValue example_prop = VNaN)) \<and>
   reactiveSetter browser_env mark_only example_heap example_prop VNaN
     = (example_heap, example_prop, 0, []) \<and>
   strict_eq (VNum 4) (currentValue (example_prop\<lparr>val := VNum 4\<rparr>)) \<and>
   reactiveSetter browser_env mark_only example_heap (example_prop\<lparr>val := VNum 4\<rparr>) (VNum 4)
     = (example_heap, example_prop\<lparr>val := VNum 4\<rparr>, 0, [])"
proof -
  have h1: "strict_eq VNaN (currentValue example_prop) \<or> (VNaN = VNaN \<and> currentValue example_prop = VNaN)"
    by (simp add: currentValue_def example_prop_def)
  have h2: "strict_eq (VNum 4) (currentValue (example_prop\<lparr>val := VNum 4\<rparr>))
            \<or> (VNum 4 = VNaN \<and> currentValue (example_prop\<lparr>val := VNum 4\<rparr>) = VNaN)"
    by (simp add: currentValue_def example_prop_def strict_eq_def)
  from same_value_no_notify[OF h1, where env = browser_env and construct = mark_only
          and h = example_heap and s = fresh_state]
       same_value_no_notify[OF h2, where env = browser_env and construct = mark_only
          and h = example_heap and s = fresh_state]
  show ?thesis using h1 h2 by simp
qed

theorem self_retrigger_stops_witness:
  "\<not> production browser_env \<and> idle idle_sched \<and>
   (\<forall>u. snd (quiet u 1) = []) \<and> (\<forall>u. snd (retrigger_self u 1) = [1]) \<and>
   MAX_UPDATE_COUNT < 101 \<and>
   (\<exists>s' u' uq. flushSchedulerQueue 101 browser_env quiet retrigger_self
                  (queueWatcher browser_env idle_sched 1) ()
                = Some (s', u', replicate 101 1, True, uq) \<and> idle s')"
proof -
  have h1: "\<not> production browser_env" by (simp add: browser_env_def)
  have h2: "idle idle_sched" by (simp add: idle_def idle_sched_def)
  have h3: "\<forall>u. snd (quiet u 1) = []" by (simp add: quiet_def)
  have h4: "\<forall>u. snd (retrigger_self u 1) = [1]" by (simp add: retrigger_self_def)
  have h5: "MAX_UPDATE_COUNT < 101" by (simp add: MAX_UPDATE_COUNT_def)
  from self_retrigger_stops[where bf = quiet and rn = retrigger_self and w = 1
        and env = browser_env and ?s0.0 = idle_sched and fuel = 101 and u = "()", OF h1 h2 h3 h4 h5]
  show ?thesis using h1 h2 h3 h4 h5 by (simp add: MAX_UPDATE_COUNT_def)
qed

theorem mutator_contract_witness:
  "ob (objs example_heap 1) = Some 7 \<and> marks mark_only \<and>
   observable browser_env example_heap (VRef 2) \<and>
   (\<exists>h'. mutator browser_env mark_only push_only Push example_heap 1 [VRef 2]
            = Inr (h', VNum 4, [70]) \<and>
          ownObserver h' (VRef 2) \<noteq> None \<and>
          elems (objs h' 1) = [VNum 1, VNum 2, VNum 3, VRef 2] \<and>
          count_list (updates browser_env (fresh_state\<lparr>subs := (\<lambda>d. if d = 70 then [1] else [])\<rparr>) [70]) 1 = 1)"
proof -
  have h1: "ob (objs example_heap 1) = Some 7" by (simp add: example_heap_def plain_object_def)
  have h2: "marks mark_only" by (simp add: marks_def mark_only_def)
  have h3: "observable browser_env example_heap (VRef 2)"
    by (simp add: observable_def isObject_def instanceofVNode_def ownObserver_def isArray_def
          isPlainObject_def isExtensible_def markedVue_def example_heap_def plain_object_def
          browser_env_def)
  let ?s = "fresh_state\<lparr>subs := (\<lambda>d. if d = 70 then [1] else [])\<rparr>"
  from mutator_contract[OF h1, where env = browser_env and construct = mark_only
          and arrayProto = push_only and m = Push and args = "[VRef 2]"]
  obtain h' where
    m: "mutator browser_env mark_only push_only Push example_heap 1 [VRef 2]
            = Inr (h', snd (push_only Push (elems (objs example_heap 1)) [VRef 2]),
                   [ob_dep (observers h' 7)])"
    and h': "h' = observeArray browser_env mark_only
                 (example_heap\<lparr>objs := (objs example_heap)(1 := (objs example_heap 1)
                        \<lparr>elems := fst (push_only Push (elems (objs example_heap 1)) [VRef 2])\<rparr>)\<rparr>)
                 [VRef 2]"
    and o: "marks mark_only \<longrightarrow>
              (\<forall>x \<in> set [VRef 2]. observable browser_env example_heap x \<longrightarrow> ownObserver h' x \<noteq> None)"
    and u: "\<forall>s w. count_list (subs s (ob_dep (observers h' 7))) w = 1 \<longrightarrow>
                 count_list (updates browser_env s [ob_dep (observers h' 7)]) w = 1"
    by auto
  have a: "elems (objs h' 1) = [VNum 1, VNum 2, VNum 3, VRef 2]" "ob_dep (observers h' 7) = 70"
    unfolding h'
    by (simp_all add: observeArray_def observe_def isObject_def instanceofVNode_def ownObserver_def
          isArray_def isPlainObject_def isExtensible_def markedVue_def
          mark_only_def example_heap_def plain_object_def push_only_def browser_env_def Let_def)
  have b: "ownObserver h' (VRef 2) \<noteq> None" using o h2 h3 by simp
  have r: "snd (push_only Push (elems (objs example_heap 1)) [VRef 2]) = VNum 4"
    by (simp add: push_only_def example_heap_def plain_object_def)
  have c: "count_list (updates browser_env ?s [70]) 1 = 1"
    using u[rule_format, of ?s 1] a(2) by (simp add: fresh_state_def)
  show ?thesis using h1 h2 h3 m a b r c by auto
qed

theorem get_pops_and_reconciles_witness:
  "stack_ok (user_state\<lparr>targetStack := [Some 2], target := Some 2\<rparr>) \<and>
   (let (s', r) = get browser_env (user_state\<lparr>targetStack := [Some 2], target := Some 2\<rparr>) 1
                    [Depend 10] (Throws (VNum 0))
    in targetStack s' = [Some 2] \<and> target s' = Some 2 \<and>
       newDeps (watchers s' 1) = [] \<and> newDepIds (watchers s' 1) = {} \<and> r = Inr VUndefined)"
proof -
  let ?s = "user_state\<lparr>targetStack := [Some 2], target := Some 2\<rparr>"
  have u: "user (watchers ?s 1)" by (simp add: user_state_def fresh_state_def fresh_watcher_def)
  have e: "handleErrorBody browser_env (VNum 0) = Inr ()"
    by (simp add: handleErrorBody_def globalHandleError_def logError_def toStringError_def
          browser_env_def)
  have d: "\<not> deep (watchers ?s 1)" by (simp add: user_state_def fresh_state_def fresh_watcher_def)
  have t: "targetStack ?s = [Some 2]" "target ?s = Some 2" "stack_ok ?s"
    by (simp_all add: stack_ok_def stackTop_def)
  from get_pops_and_reconciles[where env = browser_env and s = ?s and w = 1
          and evs = "[Depend 10]" and out = "Throws (VNum 0)"]
  show ?thesis unfolding Let_def using u d e t
    by (simp add: stackTop_def del: get.simps exec_events.simps)
qed

theorem observe_idempotent_and_skips_witness:
  "isObject example_heap (VRef 0) \<and> \<not> instanceofVNode example_heap (VRef 0) \<and>
   ownObserver example_heap (VRef 0) = Some 5 \<and>
   observe browser_env mark_only example_heap (VRef 0) False = (example_heap, Some 5) \<and>
   \<not> isObject example_heap (VNum 3) \<and>
   observe browser_env mark_only example_heap (VNum 3) False = (example_heap, None) \<and>
   (let h = example_heap\<lparr>objs := (objs example_heap)(2 := plain_object\<lparr>extensible := False\<rparr>)\<rparr>
    in isObject h (VRef 2) \<and> \<not> instanceofVNode h (VRef 2) \<and> ownObserver h (VRef 2) = None \<and>
       \<not> isExtensible h (VRef 2) \<and>
       observe browser_env mark_only h (VRef 2) False = (h, None))"
proof -
  let ?h = "example_heap\<lparr>objs := (objs example_heap)(2 := plain_object\<lparr>extensible := False\<rparr>)\<rparr>"
  have a: "isObject example_heap (VRef 0)" "\<not> instanceofVNode example_heap (VRef 0)"
    "ownObserver example_heap (VRef 0) = Some 5" "\<not> isObject example_heap (VNum 3)"
    by (simp_all add: isObject_def instanceofVNode_def ownObserver_def example_heap_def plain_object_def)
  have b: "isObject ?h (VRef 2)" "\<not> instanceofVNode ?h (VRef 2)"
    "ownObserver ?h (VRef 2) = None" "\<not> isExtensible ?h (VRef 2)"
    by (simp_all add: isObject_def instanceofVNode_def ownObserver_def isExtensible_def
          example_heap_def plain_object_def)
  from observe_idempotent_and_skips[where v = "VRef 0" and h = example_heap and env = browser_env
          and construct = mark_only and asRoot = False]
       observe_idempotent_and_skips[where v = "VNum 3" and h = example_heap and env = browser_env
          and construct = mark_only and asRoot = False]
       observe_idempotent_and_skips[where v = "VRef 2" and h = ?h and env = browser_env
          and construct = mark_only and asRoot = False]
  show ?thesis using a b unfolding Let_def by (simp add: prod_eq_iff)
qed

theorem notify_order_witness:
  "\<not> production (browser_env\<lparr>async := False\<rparr>) \<and> \<not> async (browser_env\<lparr>async := False\<rparr>) \<and>
   notify (browser_env\<lparr>async := False\<rparr>) (fresh_state\<lparr>subs := (\<lambda>d. [3, 1, 2])\<rparr>) 0 = [1, 2, 3] \<and>
   1 \<notin> has idle_sched \<and> \<not> waiting idle_sched \<and>
   scheduled (queueWatcher (browser_env\<lparr>async := False\<rparr>) idle_sched 1) = [FlushNow] \<and>
   (production production_sync_env \<or> async production_sync_env) \<and>
   notify production_sync_env (fresh_state\<lparr>subs := (\<lambda>d. [3, 1, 2])\<rparr>) 0 = [3, 1, 2] \<and>
   scheduled (queueWatcher production_sync_env idle_sched 1) = [NextTick] \<and>
   (\<forall>u v. snd (quiet u v) = [] \<and> snd (quiet u v) = []) \<and>
   length (queue (idle_sched\<lparr>queue := [3, 1, 2]\<rparr>)) \<le> 3 \<and>
   (\<exists>s' u'. flushSchedulerQueue 3 production_sync_env quiet quiet (idle_sched\<lparr>queue := [3, 1, 2]\<rparr>) ()
              = Some (s', u', [1, 2, 3], False, [1, 2, 3]))"
proof -
  let ?s = "fresh_state\<lparr>subs := (\<lambda>d. [3, 1, 2])\<rparr>"
  let ?dev = "browser_env\<lparr>async := False\<rparr>"
  let ?q = "idle_sched\<lparr>queue := [3, 1, 2]\<rparr>"
  have a: "\<not> production ?dev" "\<not> async ?dev"
    "production production_sync_env \<or> async production_sync_env"
    by (simp_all add: browser_env_def production_sync_env_def)
  have n: "notify ?dev ?s 0 = [1, 2, 3]"
    by (simp add: notify_def browser_env_def fresh_state_def)
  have i: "1 \<notin> has idle_sched" "\<not> waiting idle_sched" "scheduled idle_sched = []"
    by (simp_all add: idle_sched_def)
  have q: "\<forall>u v. snd (quiet u v) = [] \<and> snd (quiet u v) = []" by (simp add: quiet_def)
  have l: "length (queue ?q) \<le> 3" "sort (queue ?q) = [1, 2, 3]" by simp_all
  note D = notify_order[where env = ?dev and s = ?s and d = 0 and bf = quiet and rn = quiet]
  have D1: "\<forall>sch w. w \<notin> has sch \<and> \<not> waiting sch \<longrightarrow>
         scheduled (queueWatcher ?dev sch w) = scheduled sch @ [FlushNow]"
    using D a(1,2) by blast
  have d1: "scheduled (queueWatcher ?dev idle_sched 1) = [FlushNow]"
    using D1[rule_format, of 1 idle_sched] i by simp
  note P = notify_order[where env = production_sync_env and s = ?s and d = 0
             and bf = quiet and rn = quiet]
  have P1: "notify production_sync_env ?s 0 = subs ?s 0"
    and P2: "\<forall>sch w. w \<notin> has sch \<and> \<not> waiting sch \<longrightarrow>
         scheduled (queueWatcher production_sync_env sch w) = scheduled sch @ [NextTick]"
    and P3: "\<forall>sch fuel u.
         (\<forall>u v. snd (quiet u v) = [] \<and> snd (quiet u v) = []) \<and> length (queue sch) \<le> fuel \<longrightarrow>
         (\<exists>s' u'. flushSchedulerQueue fuel production_sync_env quiet quiet sch u
                    = Some (s', u', sort (queue sch), False, sort (queue sch)))"
    using P a(3) by blast+
  have p2: "scheduled (queueWatcher production_sync_env idle_sched 1) = [NextTick]"
    using P2[rule_format, of 1 idle_sched] i by simp
  have p3: "\<exists>s' u'. flushSchedulerQueue 3 production_sync_env quiet quiet ?q ()
              = Some (s', u', [1, 2, 3], False, [1, 2, 3])"
    using P3[rule_format, of ?q 3 "()"] q l by simp
  have p1: "notify production_sync_env ?s 0 = [3, 1, 2]" using P1 by simp
  show ?thesis using a n i d1 p1 p2 p3 q l(1) by (intro conjI)
qed

theorem parsePath_contract_witness:
  "bailRE_test [0x61, 0x5B, 0x30, 0x5D] \<and>
   parsePath [0x61, 0x5B, 0x30, 0x5D] = None \<and>
   snd (newWatcher browser_env example_lookup fresh_state 1
          \<lparr>opt_deep = False, opt_user = True, opt_lazy = False, opt_sync = False\<rparr>
          (Path [0x61, 0x5B, 0x30, 0x5D]) (VRef 0)) = (Inr VUndefined, 1) \<and>
   \<not> bailRE_test [0x61, 0x2E, 0x62] \<and>
   parsePath [0x61, 0x2E, 0x62] = Some [[0x61], [0x62]] \<and>
   falsy (snd (pathGetter example_lookup [[0x63]] (VRef 0))) \<and>
   snd (pathGetter example_lookup ([[0x63]] @ [[0x62]]) (VRef 0)) = VUndefined \<and>
   snd (pathGetter example_lookup ([[0x61]] @ [[0x62]]) (VRef 0)) = VNum 5"
proof -
  have a: "bailRE_test [0x61, 0x5B, 0x30, 0x5D]"
    by (simp add: bailRE_test_def allowed_def unicodeRegExp_def)
  have b: "\<not> bailRE_test [0x61, 0x2E, 0x62]"
    by (simp add: bailRE_test_def allowed_def unicodeRegExp_def)
  have c: "falsy (snd (pathGetter example_lookup [[0x63]] (VRef 0)))"
    by (simp add: example_lookup_def)
  have d: "production browser_env = False" by (simp add: browser_env_def)
  have e: "snd (pathGetter example_lookup [[0x61]] (VRef 0)) = VRef 1"
    by (simp add: example_lookup_def)
  have f: "([0x62] :: nat list) \<noteq> []" "[[0x62 :: nat]] \<noteq> []" by simp_all
  from parsePath_contract[where path = "[0x61, 0x5B, 0x30, 0x5D]" and env = browser_env
          and lk = example_lookup and vm = "VRef 0" and s = fresh_state and w = 1
          and opts = "\<lparr>opt_deep = False, opt_user = True, opt_lazy = False, opt_sync = False\<rparr>"
          and obj = "VRef 0"]
       parsePath_contract[where path = "[0x61, 0x2E, 0x62]" and env = browser_env
          and lk = example_lookup and vm = "VRef 0" and s = fresh_state and w = 1
          and opts = "\<lparr>opt_deep = False, opt_user = True, opt_lazy = False, opt_sync = False\<rparr>"
          and obj = "VRef 0"]
  have g: "parsePath [0x61, 0x5B, 0x30, 0x5D] = None"
    "snd (newWatcher browser_env example_lookup fresh_state 1
          \<lparr>opt_deep = False, opt_user = True, opt_lazy = False, opt_sync = False\<rparr>
          (Path [0x61, 0x5B, 0x30, 0x5D]) (VRef 0)) = (Inr VUndefined, 1)"
    "parsePath [0x61, 0x2E, 0x62] = Some (split_dot [0x61, 0x2E, 0x62])"
    "\<forall>segs1 segs2. segs2 \<noteq> [] \<and> falsy (snd (pathGetter example_lookup segs1 (VRef 0))) \<longrightarrow>
        snd (pathGetter example_lookup (segs1 @ segs2) (VRef 0)) = VUndefined"
    "\<forall>segs seg. snd (pathGetter example_lookup (segs @ [seg]) (VRef 0)) =
      (let v = snd (pathGetter example_lookup segs (VRef 0))
       in if falsy v then VUndefined else snd (example_lookup v seg))"
    using a b d by (simp_all del: get.simps)
  have h: "snd (pathGetter example_lookup ([[0x63]] @ [[0x62]]) (VRef 0)) = VUndefined"
    using g(4)[rule_format, of "[[0x62]]" "[[0x63]]"] c by simp
  have i: "snd (pathGetter example_lookup ([[0x61]] @ [[0x62]]) (VRef 0)) = VNum 5"
    using g(5)[rule_format, of "[[0x61]]" "[0x62]"] e by (simp add: example_lookup_def)
  have j: "split_dot [0x61, 0x2E, 0x62] = [[0x61], [0x62]]" by simp
  show ?thesis using a b c g(1,2,3) h i j by simp
qed

theorem callHook_runs_without_reader_witness:
  "(let s = fresh_state\<lparr>targetStack := [Some 1], target := Some 1\<rparr>;
        hs = [([Depend 10], Throws (VNum 0)), ([Depend 11], Returns VUndefined)];
        s' = fst (callHook browser_env s hs [])
    in stack_ok s \<and> 1 \<notin> evaluated_handlers (hs @ []) \<and> evaluated_handlers (hs @ []) = {} \<and>
       (\<forall>e \<in> set (thrown (hs @ [])). handled browser_env e) \<and>
       snd (callHook browser_env s hs []) = Inr () \<and>
       target s' = Some 1 \<and> targetStack s' = [Some 1] \<and>
       watchers s' 1 = watchers s 1 \<and> subs s' = subs s) \<and>
   (let s = fresh_state\<lparr>targetStack := [Some 1], target := Some 1\<rparr>;
        hs = [([Depend 10], Throws VUndefined)];
        s' = fst (callHook browser_env s hs [])
    in \<not> handled browser_env VUndefined \<and>
       snd (callHook browser_env s hs []) \<noteq> Inr () \<and>
       target s' = None \<and> targetStack s' = [Some 1, None] \<and> subs s' = subs s) \<and>
   production production_env \<and> hasConsole production_env \<and>
   snd (callHook production_env fresh_state [([Depend 10], Throws VUndefined)] []) = Inr ()"
proof -
  let ?s = "fresh_state\<lparr>targetStack := [Some 1], target := Some 1\<rparr>"
  let ?hs = "[([Depend 10], Throws (VNum 0)), ([Depend 11], Returns VUndefined)]"
  let ?bad = "[([Depend 10], Throws VUndefined)]"
  have h: "handled browser_env (VNum 0)" "\<not> handled browser_env VUndefined"
    by (simp_all add: handled_def handleErrorBody_def globalHandleError_def logError_def
          toStringError_def browser_env_def)
  have b: "evaluated_handlers (?hs @ []) = {}" "evaluated_handlers (?bad @ []) = {}" by simp_all
  have c: "stackTop (targetStack ?s) = Some 1" "targetStack ?s = [Some 1]" "stack_ok ?s"
    by (simp_all add: stackTop_def stack_ok_def)
  have p: "production production_env" "hasConsole production_env"
    by (simp_all add: production_env_def browser_env_def)
  have t: "thrown (?hs @ []) = [VNum 0]" "thrown (?bad @ []) = [VUndefined]" by simp_all
  note g = callHook_runs_without_reader[where env = browser_env and s = ?s and hs = ?hs and ls = "[]"]
  note k = callHook_runs_without_reader[where env = browser_env and s = ?s and hs = ?bad and ls = "[]"]
  note m = callHook_runs_without_reader[where env = production_env and s = fresh_state
             and hs = ?bad and ls = "[]"]
  have r1: "snd (callHook browser_env ?s ?hs []) = Inr ()" using g h t by simp
  have r2: "snd (callHook browser_env ?s ?bad []) \<noteq> Inr ()" using k h t by simp
  have r3: "snd (callHook production_env fresh_state ?bad []) = Inr ()" using m p by blast
  have g1: "target (fst (callHook browser_env ?s ?hs [])) = Some 1"
      "targetStack (fst (callHook browser_env ?s ?hs [])) = [Some 1]"
      "watchers (fst (callHook browser_env ?s ?hs [])) 1 = watchers ?s 1"
      "subs (fst (callHook browser_env ?s ?hs [])) = subs ?s"
    using g r1 b c unfolding Let_def by simp_all
  have k1: "target (fst (callHook browser_env ?s ?bad [])) = None"
      "targetStack (fst (callHook browser_env ?s ?bad [])) = [Some 1, None]"
      "subs (fst (callHook browser_env ?s ?bad [])) = subs ?s"
    using k r2 b c unfolding Let_def by simp_all
  show ?thesis unfolding Let_def using h b c p t r1 r2 r3 g1 k1 by (intro conjI) simp_all
qed

end
